theory Spec2Isabelle
  imports Complex_Main "HOL-Library.Multiset"
begin

section \<open>JavaScript strings and the string primitives used by lineageUtils\<close>

text \<open>
  Lineage names are JavaScript strings. They are modelled as \<open>string\<close>, a list of
  8-bit characters: one \<open>char\<close> per UTF-16 code unit, for code units below 256 (every
  Pango lineage name is plain ASCII). \<open>charCodeAt\<close> is \<open>of_char\<close>. A JavaScript string
  is falsy exactly when it is empty, so \<open>!name\<close> is \<open>name = []\<close>.
\<close>

definition startsWith :: "string \<Rightarrow> string \<Rightarrow> bool" where
  "startsWith s p = (take (length p) s = p)"

definition includesChar :: "string \<Rightarrow> char \<Rightarrow> bool" where
  "includesChar s c = (c \<in> set s)"

text \<open>\<open>s.indexOf(c)\<close>: the position of the first occurrence, or \<open>-1\<close>.\<close>

fun indexOf :: "string \<Rightarrow> char \<Rightarrow> int" where
  "indexOf [] c = - 1"
| "indexOf (x # xs) c =
     (if x = c then 0 else (let i = indexOf xs c in if i < 0 then - 1 else i + 1))"

text \<open>\<open>s.substring(a, b)\<close> swaps its arguments when \<open>a > b\<close> and clamps them to the length;
  \<open>s.substring(a)\<close> runs to the end of the string.\<close>

definition substring :: "string \<Rightarrow> nat \<Rightarrow> nat \<Rightarrow> string" where
  "substring s a b = take (max a b - min a b) (drop (min a b) s)"

definition substringFrom :: "string \<Rightarrow> nat \<Rightarrow> string" where
  "substringFrom s a = drop a s"

text \<open>\<open>s.split('.')\<close>: never empty; \<open>''.split('.')\<close> is \<open>['']\<close>.\<close>

fun split :: "char \<Rightarrow> string \<Rightarrow> string list" where
  "split d [] = [[]]"
| "split d (c # cs) =
     (if c = d then [] # split d cs
      else (case split d cs of [] \<Rightarrow> [[c]] | p # ps \<Rightarrow> (c # p) # ps))"

text \<open>\<open>parts.join('.')\<close>.\<close>

fun join :: "char \<Rightarrow> string list \<Rightarrow> string" where
  "join d [] = []"
| "join d [p] = p"
| "join d (p # q # ps) = p @ d # join d (q # ps)"

text \<open>\<open>xs.slice(a, b)\<close> for \<open>0 \<le> a\<close> and \<open>0 \<le> b\<close>.\<close>

definition slice :: "'a list \<Rightarrow> nat \<Rightarrow> nat \<Rightarrow> 'a list" where
  "slice xs a b = take (b - a) (drop a xs)"

subsection \<open>Regular expressions\<close>

text \<open>
  The three regular expression literals of the module use character classes,
  concatenation, alternation and repetition only. They are written in a small regular
  expression type and run by a matcher that takes the derivative of the expression by
  each character in turn.
\<close>

datatype rexp =
    Zero
  | One
  | Chr char
  | Range char char
  | Alt rexp rexp
  | Seq rexp rexp
  | Star rexp

fun nullable :: "rexp \<Rightarrow> bool" where
  "nullable Zero = False"
| "nullable One = True"
| "nullable (Chr c) = False"
| "nullable (Range lo hi) = False"
| "nullable (Alt r s) = (nullable r \<or> nullable s)"
| "nullable (Seq r s) = (nullable r \<and> nullable s)"
| "nullable (Star r) = True"

definition in_range :: "char \<Rightarrow> char \<Rightarrow> char \<Rightarrow> bool" where
  "in_range lo hi c = ((of_char lo :: nat) \<le> of_char c \<and> (of_char c :: nat) \<le> of_char hi)"

fun deriv :: "char \<Rightarrow> rexp \<Rightarrow> rexp" where
  "deriv c Zero = Zero"
| "deriv c One = Zero"
| "deriv c (Chr d) = (if c = d then One else Zero)"
| "deriv c (Range lo hi) = (if in_range lo hi c then One else Zero)"
| "deriv c (Alt r s) = Alt (deriv c r) (deriv c s)"
| "deriv c (Seq r s) =
     (if nullable r then Alt (Seq (deriv c r) s) (deriv c s) else Seq (deriv c r) s)"
| "deriv c (Star r) = Seq (deriv c r) (Star r)"

text \<open>\<open>matches r s\<close>: the whole of \<open>s\<close> matches \<open>r\<close>, that is \<open>/^r$/.test(s)\<close>.\<close>

fun matches :: "rexp \<Rightarrow> string \<Rightarrow> bool" where
  "matches r [] = nullable r"
| "matches r (c # cs) = matches (deriv c r) cs"

definition Plus :: "rexp \<Rightarrow> rexp" where
  "Plus r = Seq r (Star r)"

definition upper :: rexp where
  "upper = Range CHR ''A'' CHR ''Z''"

definition letter :: rexp where
  "letter = Alt (Range CHR ''A'' CHR ''Z'') (Range CHR ''a'' CHR ''z'')"

definition digit :: rexp where
  "digit = Range CHR ''0'' CHR ''9''"

definition anychar :: rexp where
  "anychar = Range (CHR 0x00) (CHR 0xFF)"

text \<open>
  \<open>/^[A-Z]{2,}($|\.)/\<close>: two or more capital letters, then the end of the string or a
  dot. The expression is not anchored at its end, so after the dot anything may follow.
\<close>

definition multiLetterRoot :: rexp where
  "multiLetterRoot =
     Seq (Seq upper (Seq upper (Star upper)))
         (Alt One (Seq (Chr CHR ''.'') (Star anychar)))"

text \<open>\<open>/^[A-Za-z](\.\d+)*$/\<close>\<close>

definition pangoPattern :: rexp where
  "pangoPattern = Seq letter (Star (Seq (Chr CHR ''.'') (Plus digit)))"

text \<open>\<open>/^[A-Za-z]+$/\<close>\<close>

definition lettersOnly :: rexp where
  "lettersOnly = Plus letter"

section \<open>The name parser\<close>

record parsedName =
  parts :: "string list"
  parent :: "string option"

text \<open>\<open>parseLineageName\<close>; the parent \<open>null\<close> is \<open>None\<close>.\<close>

definition parseLineageName :: "string \<Rightarrow> parsedName" where
  "parseLineageName lineageName =
     (if lineageName = [] then \<lparr>parts = [], parent = None\<rparr>
      else if matches multiLetterRoot lineageName then
        (let dotIndex = indexOf lineageName CHR ''.'' in
         if dotIndex > 0 then
           (let rootPart = substring lineageName 0 (nat dotIndex);
                numericParts = split CHR ''.'' (substringFrom lineageName (nat (dotIndex + 1)))
            in \<lparr>parts = rootPart # numericParts,
                parent =
                  (if length numericParts > 1
                   then Some (rootPart @ ''.'' @
                              join CHR ''.'' (slice numericParts 0 (length numericParts - 1)))
                   else Some rootPart)\<rparr>)
         else \<lparr>parts = [lineageName], parent = None\<rparr>)
      else
        (let ps = split CHR ''.'' lineageName
         in \<lparr>parts = ps,
             parent = (if length ps > 1
                       then Some (join CHR ''.'' (slice ps 0 (length ps - 1)))
                       else None)\<rparr>))"

record lineageRoot =
  rootLineage :: "string option"
  nameParts :: "string list"

text \<open>\<open>extractLineageRoot\<close>; the root \<open>null\<close> of the empty name is \<open>None\<close>. In the last
  branch the root is \<open>parts[0]\<close>, which exists because \<open>split\<close> never returns an empty array.\<close>

definition extractLineageRoot :: "string \<Rightarrow> lineageRoot" where
  "extractLineageRoot lineageName =
     (if lineageName = [] then \<lparr>rootLineage = None, nameParts = []\<rparr>
      else if startsWith lineageName ''X'' then
        (if length lineageName > 1 \<and> indexOf lineageName CHR ''.'' > 0 then
           (let dotIndex = indexOf lineageName CHR ''.'';
                root = substring lineageName 0 (nat dotIndex)
            in \<lparr>rootLineage = Some root,
                nameParts = root # split CHR ''.'' (substringFrom lineageName (nat (dotIndex + 1)))\<rparr>)
         else if length lineageName > 1 then
           \<lparr>rootLineage = Some lineageName, nameParts = [lineageName]\<rparr>
         else \<lparr>rootLineage = Some lineageName, nameParts = [lineageName]\<rparr>)
      else if matches multiLetterRoot lineageName then
        (let dotIndex = indexOf lineageName CHR ''.'' in
         if dotIndex > 0 then
           (let root = substring lineageName 0 (nat dotIndex)
            in \<lparr>rootLineage = Some root,
                nameParts = root # split CHR ''.'' (substringFrom lineageName (nat (dotIndex + 1)))\<rparr>)
         else \<lparr>rootLineage = Some lineageName, nameParts = [lineageName]\<rparr>)
      else
        (let ps = split CHR ''.'' lineageName
         in \<lparr>rootLineage = (case ps of [] \<Rightarrow> None | p # _ \<Rightarrow> Some p), nameParts = ps\<rparr>))"

text \<open>\<open>getLineageLevel\<close>\<close>

definition getLineageLevel :: "string \<Rightarrow> int" where
  "getLineageLevel lineageName =
     (if lineageName = [] then 0
      else if matches multiLetterRoot lineageName then
        (if indexOf lineageName CHR ''.'' = - 1 then 0
         else int (length (split CHR ''.'' lineageName)) - 1)
      else int (length (parts (parseLineageName lineageName))) - 1)"

text \<open>\<open>isPangoLineage\<close>\<close>

definition isPangoLineage :: "string \<Rightarrow> bool" where
  "isPangoLineage name = (if name = [] then False else matches pangoPattern name)"

section \<open>The relationship oracle\<close>

datatype relationship = Self | Child | Parent

text \<open>\<open>checkLineageRelationship\<close>; the result \<open>null\<close> is \<open>None\<close>.\<close>

definition checkLineageRelationship :: "string \<Rightarrow> string \<Rightarrow> relationship option" where
  "checkLineageRelationship lineageName referenceLineage =
     (if lineageName = [] \<or> referenceLineage = [] then None
      else if lineageName = referenceLineage then Some Self
      else if startsWith lineageName (referenceLineage @ ''.'') then Some Child
      else if startsWith referenceLineage (lineageName @ ''.'') then Some Parent
      else None)"

section \<open>JavaScript objects, numbers and errors\<close>

text \<open>
  The only exception the module can raise is a \<open>TypeError\<close>: reading a property of
  \<open>undefined\<close>, or spreading a value that is not iterable.
\<close>

datatype jsError = TypeError

text \<open>
  \<open>lineageMap\<close> and \<open>baseColors\<close> are plain objects (\<open>{}\<close> and an object literal), so a
  property read that finds no own property falls through to \<open>Object.prototype\<close>. These
  are its property names; each holds a function or, for \<open>__proto__\<close>, the prototype
  object itself, all of them truthy.
\<close>

definition objectPrototypeKeys :: "string list" where
  "objectPrototypeKeys =
     [''constructor'', ''__defineGetter__'', ''__defineSetter__'', ''hasOwnProperty'',
      ''__lookupGetter__'', ''__lookupSetter__'', ''isPrototypeOf'', ''propertyIsEnumerable'',
      ''toString'', ''valueOf'', ''__proto__'', ''toLocaleString'']"

datatype 'a property = Own 'a | Inherited | Undefined

text \<open>\<open>obj[key]\<close> for a plain object whose own properties are the association list.\<close>

definition getProperty :: "(string \<times> 'a) list \<Rightarrow> string \<Rightarrow> 'a property" where
  "getProperty obj k =
     (case map_of obj k of
        Some v \<Rightarrow> Own v
      | None \<Rightarrow> if k \<in> set objectPrototypeKeys then Inherited else Undefined)"

text \<open>An object literal: where a key is written twice, the later entry wins.\<close>

definition objectLiteral :: "(string \<times> 'a) list \<Rightarrow> (string \<times> 'a) list" where
  "objectLiteral entries = rev entries"

text \<open>
  JavaScript numbers are IEEE doubles. Counts and character hashes are integers and are
  modelled as \<open>int\<close>; the colour arithmetic (division, HSL conversion) is modelled over
  the rationals, the exact values the doubles approximate. The two agree except where
  an exact channel value lies on a rounding boundary of \<open>Math.round\<close>, where the double
  may fall on the other side and the channel differ by one.
\<close>

text \<open>\<open>Math.round\<close>: to the nearest integer, halves upwards.\<close>

definition mathRound :: "rat \<Rightarrow> int" where
  "mathRound x = \<lfloor>x + 1 / 2\<rfloor>"

text \<open>The remainder operator \<open>%\<close> on integers takes the sign of the dividend.\<close>

definition jsRem :: "int \<Rightarrow> int \<Rightarrow> int" where
  "jsRem a b = sgn a * (\<bar>a\<bar> mod \<bar>b\<bar>)"

text \<open>\<open>x % 1\<close> on a number: what is left of \<open>x\<close> after its integer part, rounded towards
  zero, is removed.\<close>

definition jsRem1 :: "rat \<Rightarrow> rat" where
  "jsRem1 x = x - of_int (if x < 0 then \<lceil>x\<rceil> else \<lfloor>x\<rfloor>)"

text \<open>
  \<open>parseInt(s)\<close> without a radix: leading white space is skipped, then an optional sign,
  then \<open>0x\<close> or \<open>0X\<close> selects radix 16; the longest run of digits is read, and the result
  is \<open>NaN\<close> (\<open>None\<close>) when that run is empty.
\<close>

definition isWhiteSpace :: "char \<Rightarrow> bool" where
  "isWhiteSpace c = ((of_char c :: nat) \<in> {0x09, 0x0A, 0x0B, 0x0C, 0x0D, 0x20, 0xA0})"

definition digitValue :: "char \<Rightarrow> nat option" where
  "digitValue c =
     (let n = (of_char c :: nat) in
      if 48 \<le> n \<and> n \<le> 57 then Some (n - 48)
      else if 97 \<le> n \<and> n \<le> 122 then Some (n - 87)
      else if 65 \<le> n \<and> n \<le> 90 then Some (n - 55)
      else None)"

definition isRadixDigit :: "nat \<Rightarrow> char \<Rightarrow> bool" where
  "isRadixDigit radix c = (case digitValue c of None \<Rightarrow> False | Some v \<Rightarrow> v < radix)"

definition digitsValue :: "nat \<Rightarrow> string \<Rightarrow> int" where
  "digitsValue radix ds =
     foldl (\<lambda>acc c. acc * int radix + (case digitValue c of Some v \<Rightarrow> int v | None \<Rightarrow> 0)) 0 ds"

definition parseInt :: "string \<Rightarrow> int option" where
  "parseInt str =
     (let s0 = dropWhile isWhiteSpace str;
          sign = (if startsWith s0 ''-'' then - 1 else 1 :: int);
          s1 = (if startsWith s0 ''-'' \<or> startsWith s0 ''+'' then drop 1 s0 else s0);
          hex = (startsWith s1 ''0x'' \<or> startsWith s1 ''0X'');
          radix = (if hex then 16 else 10 :: nat);
          s2 = (if hex then drop 2 s1 else s1);
          z = takeWhile (isRadixDigit radix) s2
      in if z = [] then None else Some (sign * digitsValue radix z))"

section \<open>The colour assigner\<close>

type_synonym rgb = "int list"

text \<open>\<open>rgbToHsl\<close>; the \<open>switch (max)\<close> takes the first of \<open>r\<close>, \<open>g\<close>, \<open>b\<close> equal to the maximum.
  For channels between 0 and 255 that are not all equal no divisor is zero.\<close>

definition rgbToHsl :: "rat \<Rightarrow> rat \<Rightarrow> rat \<Rightarrow> rat \<times> rat \<times> rat" where
  "rgbToHsl r0 g0 b0 =
     (let r = r0 / 255; g = g0 / 255; b = b0 / 255;
          mx = max (max r g) b;
          mn = min (min r g) b;
          l = (mx + mn) / 2
      in if mx = mn then (0, 0, l)
         else
           (let d = mx - mn;
                s = (if l > 1 / 2 then d / (2 - mx - mn) else d / (mx + mn));
                h = (if mx = r then (g - b) / d + (if g < b then 6 else 0)
                     else if mx = g then (b - r) / d + 2
                     else (r - g) / d + 4)
            in (h / 6, s, l)))"

definition hue2rgb :: "rat \<Rightarrow> rat \<Rightarrow> rat \<Rightarrow> rat" where
  "hue2rgb p q t0 =
     (let t1 = (if t0 < 0 then t0 + 1 else t0);
          t = (if t1 > 1 then t1 - 1 else t1)
      in if t < 1 / 6 then p + (q - p) * 6 * t
         else if t < 1 / 2 then q
         else if t < 2 / 3 then p + (q - p) * (2 / 3 - t) * 6
         else p)"

definition hslToRgb :: "rat \<Rightarrow> rat \<Rightarrow> rat \<Rightarrow> rgb" where
  "hslToRgb h s l =
     (if s = 0 then [mathRound (l * 255), mathRound (l * 255), mathRound (l * 255)]
      else
        (let q = (if l < 1 / 2 then l * (1 + s) else l + s - l * s);
             p = 2 * l - q
         in [mathRound (hue2rgb p q (h + 1 / 3) * 255),
             mathRound (hue2rgb p q h * 255),
             mathRound (hue2rgb p q (h - 1 / 3) * 255)]))"

text \<open>\<open>s.split('').reduce((acc, char, i) => acc + char.charCodeAt(0) * (i + 1) * w, 0)\<close>\<close>

definition charHash :: "int \<Rightarrow> string \<Rightarrow> int" where
  "charHash w s =
     foldl (\<lambda>acc (ch, i). acc + of_char ch * (int i + 1) * w) 0 (zip s [0..<length s])"

text \<open>\<open>generateColorForUnknownLineage\<close>, and the identical fallback of the final safety
  check.\<close>

definition generateColorForUnknownLineage :: "string \<Rightarrow> rgb" where
  "generateColorForUnknownLineage lineageName =
     (let seed = charHash 37 lineageName;
          h = rat_of_int (seed mod 360) / 360;
          s = 7 / 10 + rat_of_int (seed mod 20) / 100;
          l = 1 / 2
      in hslToRgb h s l)"

definition baseColors :: "(string \<times> rgb) list" where
  "baseColors = objectLiteral
     [(''A'', [200, 40, 40]), (''B'', [40, 40, 200]), (''C'', [40, 160, 40]), (''D'', [180, 140, 20]),
      (''E'', [160, 40, 160]), (''F'', [40, 160, 160]), (''G'', [180, 70, 40]), (''H'', [120, 40, 140]),
      (''I'', [70, 130, 50]), (''J'', [160, 60, 90]), (''K'', [40, 100, 140]), (''L'', [140, 120, 40]),
      (''M'', [100, 40, 80]), (''N'', [40, 120, 100]), (''O'', [170, 70, 70]), (''P'', [70, 70, 170]),
      (''Q'', [150, 150, 40]), (''R'', [90, 40, 140]), (''S'', [40, 110, 70]), (''T'', [140, 80, 40]),
      (''U'', [80, 40, 120]), (''V'', [100, 130, 40]), (''W'', [150, 60, 100]), (''Z'', [60, 120, 120]),
      (''AY'', [240, 100, 60]), (''AU'', [235, 85, 55]), (''AZ'', [245, 95, 65]), (''AT'', [230, 90, 50]),
      (''AS'', [220, 80, 45]), (''AA'', [225, 85, 50]), (''AB'', [215, 75, 45]), (''AC'', [210, 70, 40]),
      (''AD'', [205, 65, 35]), (''AE'', [200, 60, 30]), (''AF'', [195, 55, 25]), (''AG'', [190, 50, 20]),
      (''AH'', [185, 45, 15]), (''AI'', [180, 40, 10]), (''AJ'', [175, 35, 5]), (''AK'', [170, 30, 0]),
      (''AL'', [175, 35, 5]), (''AM'', [180, 40, 10]), (''AN'', [185, 45, 15]), (''AO'', [190, 50, 20]),
      (''AP'', [195, 55, 25]), (''AQ'', [200, 60, 30]), (''AR'', [205, 65, 35]), (''AV'', [210, 70, 40]),
      (''AW'', [215, 75, 45]), (''AX'', [220, 80, 50]), (''BJ'', [60, 100, 210]), (''BL'', [70, 120, 220]),
      (''BN'', [80, 140, 230]), (''CH'', [60, 180, 100]), (''CJ'', [70, 170, 90]), (''CR'', [50, 190, 110]),
      (''DL'', [200, 160, 40]), (''DR'', [210, 150, 30]), (''EG'', [180, 60, 180]), (''EH'', [170, 50, 190]),
      (''EL'', [190, 70, 170]), (''FL'', [60, 190, 190]), (''FM'', [50, 180, 200]), (''HK'', [140, 60, 160]),
      (''HV'', [130, 50, 170]), (''JN'', [180, 80, 100]), (''JP'', [170, 70, 110]), (''KP'', [60, 120, 160]),
      (''KL'', [50, 110, 170]), (''BA'', [70, 70, 180]), (''BB'', [60, 80, 190]), (''BC'', [50, 90, 200]),
      (''BD'', [60, 100, 190]), (''BE'', [70, 110, 180]), (''BF'', [80, 120, 170]), (''BG'', [90, 130, 160]),
      (''BH'', [100, 140, 150]), (''BJ'', [110, 150, 140]), (''BK'', [120, 160, 130]), (''BL'', [130, 170, 120]),
      (''BM'', [140, 180, 110]), (''BN'', [150, 190, 100]), (''BP'', [140, 170, 110]), (''BQ'', [130, 160, 120]),
      (''BR'', [120, 150, 130]), (''BS'', [110, 140, 140]), (''BT'', [100, 130, 150]), (''BU'', [90, 120, 160]),
      (''BV'', [80, 110, 170]), (''BW'', [70, 100, 180]), (''BY'', [60, 90, 190]), (''BZ'', [50, 80, 200]),
      (''X'', [130, 60, 130]), (''XA'', [140, 60, 140]), (''XB'', [150, 60, 150]), (''XC'', [160, 60, 160]),
      (''XD'', [170, 60, 170]), (''XE'', [180, 60, 180]), (''XF'', [170, 60, 170]), (''XG'', [160, 60, 160]),
      (''XH'', [150, 60, 150]), (''XJ'', [140, 60, 140]), (''XK'', [130, 60, 130]), (''XL'', [120, 60, 120]),
      (''XM'', [110, 60, 110]), (''XN'', [100, 60, 100]), (''XP'', [110, 60, 110]), (''XQ'', [120, 60, 120]),
      (''XR'', [130, 60, 130]), (''XS'', [140, 60, 140]), (''XBB'', [140, 70, 170]), (''XBF'', [150, 80, 180]),
      (''XBC'', [160, 90, 190])]"

definition defaultColor :: rgb where
  "defaultColor = [130, 100, 180]"

text \<open>\<open>rgbToHsl(...color)\<close>: the first three elements; a missing element is \<open>undefined\<close>,
  which no colour of this module ever has, and is read as 0 here.\<close>

definition rgbToHslOf :: "rgb \<Rightarrow> rat \<times> rat \<times> rat" where
  "rgbToHslOf c =
     rgbToHsl (rat_of_int (if 0 < length c then c ! 0 else 0))
              (rat_of_int (if 1 < length c then c ! 1 else 0))
              (rat_of_int (if 2 < length c then c ! 2 else 0))"

text \<open>The base colour of a root; spreading an inherited prototype property (a function
  or the prototype object) raises a \<open>TypeError\<close>.\<close>

definition baseColorFor :: "string \<Rightarrow> jsError + rgb" where
  "baseColorFor rootName =
     (case getProperty baseColors rootName of
        Own c \<Rightarrow> Inr c
      | Inherited \<Rightarrow> Inl TypeError
      | Undefined \<Rightarrow>
          if rootName = ''BA'' then Inr [70, 70, 180]
          else if length rootName > 1 then
            (let mainLetter = take 1 rootName in
             case getProperty baseColors mainLetter of
               Own parentColor \<Rightarrow>
                 (let secondaryPart = substringFrom rootName 1;
                      (h0, s0, l0) = rgbToHslOf parentColor;
                      hash = charHash 1 secondaryPart;
                      h1 = jsRem1 ((h0 * 360 + rat_of_int (jsRem hash 120) - 60) / 360);
                      h = (if h1 < 0 then h1 + 1 else h1);
                      s = max (6 / 10) (min (9 / 10) (s0 + 2 / 10));
                      l = max (35 / 100) (min (55 / 100) l0)
                  in Inr (hslToRgb h s l))
             | Inherited \<Rightarrow> Inl TypeError
             | Undefined \<Rightarrow> Inr (generateColorForUnknownLineage rootName))
          else Inr (generateColorForUnknownLineage rootName))"

section \<open>Lineage nodes\<close>

text \<open>
  An entry of the input array (\<open>{value, count, color}\<close>) and a node object of the
  hierarchy. A node's \<open>children\<close> array is the second component of \<open>LineageNode\<close>; its
  \<open>parent\<close> property, a reference to the parent's node object, is recorded by the
  parent's name. \<open>totalTaxa\<close> is \<open>None\<close> while the property is \<open>undefined\<close>.
\<close>

record lineage =
  lin_value :: string
  lin_count :: int
  lin_color :: rgb

record node =
  name :: string
  count :: int
  originalCount :: int
  sampleCount :: int
  internalCount :: int
  color :: rgb
  isExpanded :: bool
  level :: int
  parentName :: "string option"
  totalTaxa :: "int option"

datatype lineageNode = LineageNode (info: node) (children: "lineageNode list")

text \<open>The optional second argument of \<open>generatePangoLineageColor\<close>.\<close>

record lineageData =
  hierarchyData :: "lineageNode list option"
  totalCount :: "int option"

text \<open>\<open>findNode\<close>: depth-first search for the first node with the given name.\<close>

fun findNode :: "lineageNode list \<Rightarrow> string \<Rightarrow> lineageNode option" where
  "findNode [] targetName = None"
| "findNode (LineageNode nd cs # rest) targetName =
     (if name nd = targetName then Some (LineageNode nd cs)
      else (case findNode cs targetName of
              Some found \<Rightarrow> Some found
            | None \<Rightarrow> findNode rest targetName))"

text \<open>\<open>lineageData.totalCount || hierarchyData.reduce((sum, n) => sum + (n.count || 0), 0)\<close>\<close>

definition totalCountOf :: "lineageData \<Rightarrow> lineageNode list \<Rightarrow> int" where
  "totalCountOf ld rootNodes =
     (case totalCount ld of
        Some t \<Rightarrow> if t \<noteq> 0 then t else foldl (\<lambda>sum n. sum + count (info n)) 0 rootNodes
      | None \<Rightarrow> foldl (\<lambda>sum n. sum + count (info n)) 0 rootNodes)"

text \<open>\<open>isGrayish\<close>: the standard deviation of the three channels is below 25.\<close>

definition isGrayish :: "rgb \<Rightarrow> bool" where
  "isGrayish c =
     (case c of
        r # g # b # _ \<Rightarrow>
          (let average = (rat_of_int r + rat_of_int g + rat_of_int b) / 3;
               variance = sqrt (real_of_rat
                 (((rat_of_int r - average)\<^sup>2 + (rat_of_int g - average)\<^sup>2 +
                   (rat_of_int b - average)\<^sup>2) / 3))
           in variance < 25)
      | _ \<Rightarrow> False)"

lemma sqrt_less_25: "sqrt (real_of_rat v) < 25 \<longleftrightarrow> v < 625"
proof -
  have "sqrt (625 :: real) = 25"
    by (rule real_sqrt_unique) simp_all
  then have "sqrt (real_of_rat v) < 25 \<longleftrightarrow> sqrt (real_of_rat v) < sqrt 625" by simp
  also have "\<dots> \<longleftrightarrow> real_of_rat v < real_of_rat 625" by (simp only: real_sqrt_less_iff of_rat_numeral_eq)
  also have "\<dots> \<longleftrightarrow> v < 625" by (rule of_rat_less)
  finally show ?thesis .
qed

lemma isGrayish_code [code]:
  "isGrayish c =
     (case c of
        r # g # b # _ \<Rightarrow>
          (let average = (rat_of_int r + rat_of_int g + rat_of_int b) / 3
           in ((rat_of_int r - average)\<^sup>2 + (rat_of_int g - average)\<^sup>2 +
               (rat_of_int b - average)\<^sup>2) / 3 < 625)
      | _ \<Rightarrow> False)"
  by (simp add: isGrayish_def Let_def sqrt_less_25 split: list.splits)

text \<open>One round of the loop over the path segments: the state is \<open>(h, s, l)\<close>.\<close>

definition adjustForPart :: "string \<Rightarrow> rat \<times> rat \<times> rat \<Rightarrow> rat \<times> rat \<times> rat" where
  "adjustForPart part hsl =
     (case hsl of (h, s, l) \<Rightarrow>
        (case parseInt part of
           None \<Rightarrow> (h, s, l)
         | Some numericPart \<Rightarrow>
             (let h1 = h + rat_of_int (jsRem numericPart 12) * (5 / 1000);
                  h2 = (if h1 > 1 then h1 - 1 else h1);
                  lightnessAdjustment = - (2 / 100) * rat_of_int (jsRem numericPart 5) / 5;
                  l1 = min (75 / 100) (max (25 / 100) (l + lightnessAdjustment));
                  s1 = min (9 / 10) (max (2 / 10) (s + 5 / 1000))
              in (h2, s1, l1))))"

text \<open>The root-level branch (\<open>nameParts.length === 1\<close>).\<close>

definition rootLevelColor :: "string \<Rightarrow> lineageData option \<Rightarrow> rgb \<Rightarrow> rgb" where
  "rootLevelColor lineageName ld baseColor =
     (let plain =
            (case rgbToHslOf baseColor of (h, s, l) \<Rightarrow>
               if s < 1 / 2 then hslToRgb h (7 / 10) l else baseColor)
      in case ld of
           None \<Rightarrow> plain
         | Some d \<Rightarrow>
             (case hierarchyData d of
                None \<Rightarrow> plain
              | Some rootNodes \<Rightarrow>
                  (case find (\<lambda>n. name (info n) = lineageName) rootNodes of
                     None \<Rightarrow> plain
                   | Some rootNode \<Rightarrow>
                       (let total = totalCountOf d rootNodes in
                        if total > 0 then
                          (let prevalence = rat_of_int (count (info rootNode)) / rat_of_int total;
                               (h, s, l) = rgbToHslOf baseColor;
                               maxPrevalence = 3 / 10;
                               normalizedPrevalence = min 1 (prevalence / maxPrevalence);
                               s' = min 1 (s + normalizedPrevalence * (3 / 10));
                               l' = max (25 / 100) (4 / 10 - normalizedPrevalence * (15 / 100))
                           in hslToRgb h s' l')
                        else plain))))"

text \<open>The branch for deeper levels, with the final safety check.\<close>

definition deepLevelColor :: "string \<Rightarrow> string list \<Rightarrow> lineageData option \<Rightarrow> rgb \<Rightarrow> rgb" where
  "deepLevelColor lineageName nmParts ld baseColor =
     (let (h, s0, l0) = rgbToHslOf baseColor;
          depth = int (length nmParts) - 1;
          maxLightness = 75 / 100;
          depthFactor = 8 / 100;
          normalizedPrevalence =
            (case ld of
               None \<Rightarrow> None
             | Some d \<Rightarrow>
                 (case hierarchyData d of
                    None \<Rightarrow> None
                  | Some rootNodes \<Rightarrow>
                      (case findNode rootNodes lineageName of
                         None \<Rightarrow> None
                       | Some nd \<Rightarrow>
                           (let total = totalCountOf d rootNodes in
                            if total > 0 then
                              Some (min 1 ((rat_of_int (count (info nd)) / rat_of_int total) / (2 / 10)))
                            else None))));
          baseLightness =
            (case normalizedPrevalence of
               None \<Rightarrow> 4 / 10
             | Some np \<Rightarrow> 4 / 10 - np * (15 / 100));
          s = (case normalizedPrevalence of
                 None \<Rightarrow> s0
               | Some np \<Rightarrow> min (9 / 10) (s0 + np * (1 / 10)));
          l = min maxLightness (max (25 / 100) (baseLightness + rat_of_int (depth - 1) * depthFactor));
          (h', s', l') = foldl (\<lambda>hsl part. adjustForPart part hsl) (h, s, l) (drop 1 nmParts);
          adjustedColor = hslToRgb h' s' l'
      in if isGrayish adjustedColor then generateColorForUnknownLineage lineageName
         else adjustedColor)"

text \<open>\<open>generatePangoLineageColor\<close>. A root of \<open>null\<close> would make \<open>rootLineage.length\<close> raise; it
  does not occur for a non-empty name.\<close>

definition generatePangoLineageColor :: "string \<Rightarrow> lineageData option \<Rightarrow> jsError + rgb" where
  "generatePangoLineageColor lineageName ld =
     (if lineageName = [] then Inr [180, 180, 180]
      else if \<not> includesChar lineageName CHR ''.'' \<and> \<not> matches lettersOnly lineageName
        then Inr (generateColorForUnknownLineage lineageName)
      else
        (let ex = extractLineageRoot lineageName in
         case rootLineage ex of
           None \<Rightarrow> Inl TypeError
         | Some rootName \<Rightarrow>
             (case baseColorFor rootName of
                Inl e \<Rightarrow> Inl e
              | Inr baseColor \<Rightarrow>
                  if length (nameParts ex) = 1
                  then Inr (rootLevelColor lineageName ld baseColor)
                  else Inr (deepLevelColor lineageName (nameParts ex) ld baseColor))))"

section \<open>The hierarchy builder\<close>

text \<open>
  \<open>lineageMap\<close> is a plain object keyed by lineage name. Its own properties are kept in
  the order they were created. Every own value is a node object, hence truthy, and an
  inherited prototype property is truthy too: \<open>!lineageMap[k]\<close> holds only when the
  property is undefined.
\<close>

type_synonym lineageMap = "(string \<times> node) list"

definition truthyProperty :: "(string \<times> 'a) list \<Rightarrow> string \<Rightarrow> bool" where
  "truthyProperty obj k = (case getProperty obj k of Undefined \<Rightarrow> False | _ \<Rightarrow> True)"

text \<open>The names \<open>cur\<close>, \<open>cur.p1\<close>, \<open>cur.p1.p2\<close>, ... built by the loop of
  \<open>getAllParentLineages\<close>.\<close>

fun prefixNames :: "string \<Rightarrow> string list \<Rightarrow> string list" where
  "prefixNames currentParent [] = [currentParent]"
| "prefixNames currentParent (p # ps) =
     currentParent # prefixNames (currentParent @ ''.'' @ p) ps"

definition getAllParentLineages :: "string \<Rightarrow> string list" where
  "getAllParentLineages lineageName =
     (if lineageName = [] then []
      else
        (let ps =
           (if matches multiLetterRoot lineageName then
              (let dotIndex = indexOf lineageName CHR ''.'' in
               if dotIndex > 0 then
                 substring lineageName 0 (nat dotIndex) #
                 split CHR ''.'' (substringFrom lineageName (nat (dotIndex + 1)))
               else [lineageName])
            else split CHR ''.'' lineageName)
         in case ps of
              [] \<Rightarrow> []
            | p # rest \<Rightarrow> butlast (prefixNames p rest)))"

text \<open>\<open>nodeTypes\<close> is \<open>null\<close> or an object from lineage names to a type tag.\<close>

definition isLeafCount :: "(string \<Rightarrow> string option) option \<Rightarrow> string \<Rightarrow> bool" where
  "isLeafCount nodeTypes v =
     (case nodeTypes of
        None \<Rightarrow> True
      | Some nt \<Rightarrow> (case nt v of None \<Rightarrow> True | Some t \<Rightarrow> t = [] \<or> t = ''leaf''))"

definition dataNode :: "(string \<Rightarrow> string option) option \<Rightarrow> lineage \<Rightarrow> node" where
  "dataNode nodeTypes lin =
     \<lparr>name = lin_value lin,
      count = lin_count lin,
      originalCount = lin_count lin,
      sampleCount = (if isLeafCount nodeTypes (lin_value lin) then lin_count lin else 0),
      internalCount = (if isLeafCount nodeTypes (lin_value lin) then 0 else lin_count lin),
      color = lin_color lin,
      isExpanded = False,
      level = getLineageLevel (lin_value lin),
      parentName = None,
      totalTaxa = None\<rparr>"

definition parentNode :: "string \<Rightarrow> rgb \<Rightarrow> node" where
  "parentNode parentLineage c =
     \<lparr>name = parentLineage,
      count = 0,
      originalCount = 0,
      sampleCount = 0,
      internalCount = 0,
      color = c,
      isExpanded = False,
      level = getLineageLevel parentLineage,
      parentName = None,
      totalTaxa = None\<rparr>"

text \<open>\<open>parentLineages.forEach\<close>: create each missing parent, coloured from its name alone.\<close>

fun addParents :: "lineageMap \<Rightarrow> string list \<Rightarrow> jsError + lineageMap" where
  "addParents m [] = Inr m"
| "addParents m (p # ps) =
     (if truthyProperty m p then addParents m ps
      else (case generatePangoLineageColor p None of
              Inl e \<Rightarrow> Inl e
            | Inr c \<Rightarrow> addParents (m @ [(p, parentNode p c)]) ps))"

text \<open>The body of the first \<open>lineages.forEach\<close>.\<close>

definition addLineage ::
  "(string \<Rightarrow> string option) option \<Rightarrow> lineageMap \<Rightarrow> lineage \<Rightarrow> jsError + lineageMap" where
  "addLineage nodeTypes m lin =
     (if lin_value lin = [] then Inr m
      else
        addParents
          (if truthyProperty m (lin_value lin) then m
           else m @ [(lin_value lin, dataNode nodeTypes lin)])
          (getAllParentLineages (lin_value lin)))"

fun firstPass ::
  "(string \<Rightarrow> string option) option \<Rightarrow> lineageMap \<Rightarrow> lineage list \<Rightarrow> jsError + lineageMap" where
  "firstPass nodeTypes m [] = Inr m"
| "firstPass nodeTypes m (lin # rest) =
     (case addLineage nodeTypes m lin of
        Inl e \<Rightarrow> Inl e
      | Inr m' \<Rightarrow> firstPass nodeTypes m' rest)"

text \<open>
  \<open>Object.values\<close> lists the properties whose key is an array index (the decimal form
  of an integer from 0 to \<open>2\<^sup>3\<^sup>2 - 2\<close>) first, in ascending numeric order, and then all other
  properties in the order of their creation.
\<close>

definition isArrayIndex :: "string \<Rightarrow> bool" where
  "isArrayIndex k =
     ((k = ''0'' \<or> (k \<noteq> [] \<and> hd k \<noteq> CHR ''0'' \<and> list_all (isRadixDigit 10) k)) \<and>
      digitsValue 10 k \<le> 4294967294)"

definition objectValues :: "(string \<times> 'a) list \<Rightarrow> 'a list" where
  "objectValues obj =
     map snd (sort_key (\<lambda>e. digitsValue 10 (fst e)) (filter (\<lambda>e. isArrayIndex (fst e)) obj)) @
     map snd (filter (\<lambda>e. \<not> isArrayIndex (fst e)) obj)"

text \<open>
  The second pass visits \<open>Object.values(lineageMap)\<close> and decides, for each node, where
  it goes: to \<open>rootLineages\<close> when the parsed parent is \<open>null\<close> or empty or is not in the
  map, or onto the \<open>children\<close> array of \<open>lineageMap[parent]\<close>. When \<open>lineageMap[parent]\<close>
  is an inherited prototype property it has no \<open>children\<close> array, and calling \<open>push\<close> on
  \<open>undefined\<close> raises a \<open>TypeError\<close>.
\<close>

datatype placement = AtRoot | ChildOf string | PushFails

definition placementOf :: "lineageMap \<Rightarrow> node \<Rightarrow> placement" where
  "placementOf m nd =
     (case parent (parseLineageName (name nd)) of
        None \<Rightarrow> AtRoot
      | Some p \<Rightarrow>
          if p = [] then AtRoot
          else (case getProperty m p of
                  Own _ \<Rightarrow> ChildOf p
                | Inherited \<Rightarrow> PushFails
                | Undefined \<Rightarrow> AtRoot))"

definition rootLineages :: "lineageMap \<Rightarrow> node list" where
  "rootLineages m = filter (\<lambda>nd. placementOf m nd = AtRoot) (objectValues m)"

text \<open>The \<open>children\<close> array of the node stored under key \<open>p\<close>, in the order of the pushes.\<close>

definition childrenOf :: "lineageMap \<Rightarrow> string \<Rightarrow> node list" where
  "childrenOf m p =
     map (\<lambda>nd. nd\<lparr>parentName := Some p\<rparr>)
         (filter (\<lambda>nd. placementOf m nd = ChildOf p) (objectValues m))"

definition pushFails :: "lineageMap \<Rightarrow> bool" where
  "pushFails m = list_ex (\<lambda>nd. placementOf m nd = PushFails) (objectValues m)"

definition maxNameLength :: "lineageMap \<Rightarrow> nat" where
  "maxNameLength m = foldr (\<lambda>e n. max (length (name (snd e))) n) m 0"

section \<open>The language of a regular expression\<close>

text \<open>
  The words an expression denotes, independently of the matcher; the matcher is proved
  to decide exactly this language.
\<close>

definition conc :: "string set \<Rightarrow> string set \<Rightarrow> string set" where
  "conc A B = {a @ b | a b. a \<in> A \<and> b \<in> B}"

inductive_set star :: "string set \<Rightarrow> string set" for A :: "string set" where
  star_nil: "[] \<in> star A"
| star_app: "a \<in> A \<Longrightarrow> w \<in> star A \<Longrightarrow> a @ w \<in> star A"

fun lang :: "rexp \<Rightarrow> string set" where
  "lang Zero = {}"
| "lang One = {[]}"
| "lang (Chr c) = {[c]}"
| "lang (Range lo hi) = {[c] | c. in_range lo hi c}"
| "lang (Alt r s) = lang r \<union> lang s"
| "lang (Seq r s) = conc (lang r) (lang s)"
| "lang (Star r) = star (lang r)"


text \<open>
  The pattern \<open>^[A-Za-z](\.\d+)*$\<close> read as a grammar: one letter, then any number of
  groups made of a dot and one or more digits.
\<close>

definition isLetterChar :: "char \<Rightarrow> bool" where
  "isLetterChar c = (c \<in> set ''ABCDEFGHIJKLMNOPQRSTUVWXYZabcdefghijklmnopqrstuvwxyz'')"

definition isDigitChar :: "char \<Rightarrow> bool" where
  "isDigitChar c = (c \<in> set ''0123456789'')"

definition pangoGrammar :: "string \<Rightarrow> bool" where
  "pangoGrammar nm =
     (\<exists>c gs. nm = c # concat (map (\<lambda>g. CHR ''.'' # g) gs) \<and> isLetterChar c \<and>
        (\<forall>g \<in> set gs. g \<noteq> [] \<and> (\<forall>x \<in> set g. isDigitChar x)))"

section \<open>Facts about the string primitives\<close>

lemma startsWith_length: "startsWith s p \<Longrightarrow> length p \<le> length s"
  unfolding startsWith_def by (metis length_take min.cobounded1)

lemma startsWith_both:
  assumes "startsWith a (b @ ''.'')" "startsWith b (a @ ''.'')" shows False
  using startsWith_length[OF assms(1)] startsWith_length[OF assms(2)] by simp

lemma startsWith_neq: "startsWith a (b @ ''.'') \<Longrightarrow> a \<noteq> b"
  using startsWith_length[of a "b @ ''.''"] by auto

lemma split_nonempty: "split d s \<noteq> []"
  by (induction s) (auto split: list.splits)

lemma split_no_sep: "d \<notin> set s \<Longrightarrow> split d s = [s]"
  by (induction s) (auto split: list.splits)

lemma split_at_sep: "d \<notin> set p \<Longrightarrow> split d (p @ d # r) = p # split d r"
  by (induction p) (auto split: list.splits)

lemma indexOf_none: "indexOf s c < 0 \<longleftrightarrow> c \<notin> set s"
  by (induction s) (auto simp: Let_def)

lemma indexOf_ge: "indexOf s c \<ge> - 1"
  by (induction s) (auto simp: Let_def)

lemma indexOf_found:
  "0 \<le> indexOf s c \<Longrightarrow>
     s = take (nat (indexOf s c)) s @ c # drop (nat (indexOf s c + 1)) s \<and>
     c \<notin> set (take (nat (indexOf s c)) s)"
proof (induction s)
  case Nil
  then show ?case by simp
next
  case (Cons x xs)
  show ?case
  proof (cases "x = c")
    case True
    then show ?thesis by simp
  next
    case False
    with Cons.prems have nn: "0 \<le> indexOf xs c" by (auto simp: Let_def split: if_splits)
    from False nn have eq: "indexOf (x # xs) c = indexOf xs c + 1" by (simp add: Let_def)
    have n1: "nat (indexOf xs c + 1) = Suc (nat (indexOf xs c))" using nn by simp
    have n2: "nat (indexOf xs c + 1 + 1) = Suc (nat (indexOf xs c + 1))" using nn by simp
    from Cons.IH[OF nn] False show ?thesis unfolding eq n1 n2 by (simp add: n1)
  qed
qed

lemma split_at_indexOf:
  assumes "0 \<le> indexOf s c"
  shows "split c s = take (nat (indexOf s c)) s # split c (drop (nat (indexOf s c + 1)) s)"
proof -
  from indexOf_found[OF assms] have
    a: "s = take (nat (indexOf s c)) s @ c # drop (nat (indexOf s c + 1)) s"
    and b: "c \<notin> set (take (nat (indexOf s c)) s)" by auto
  have "split c s = split c (take (nat (indexOf s c)) s @ c # drop (nat (indexOf s c + 1)) s)"
    using a by simp
  then show ?thesis using split_at_sep[OF b] by simp
qed

lemma join_split: "join d (split d s) = s"
proof (induction s)
  case Nil
  then show ?case by simp
next
  case (Cons c cs)
  show ?case
  proof (cases "c = d")
    case True
    obtain p ps where sp: "split d cs = p # ps" using split_nonempty[of d cs] by (cases "split d cs") auto
    with Cons True show ?thesis by simp
  next
    case False
    obtain p ps where sp: "split d cs = p # ps" using split_nonempty[of d cs] by (cases "split d cs") auto
    with Cons False show ?thesis by (cases ps) auto
  qed
qed

lemma matches_dead: "matches (Seq (Seq Zero r) q) s = False"
  by (induction s) auto

lemma multiLetterRoot_first:
  assumes "matches multiLetterRoot s" shows "s \<noteq> [] \<and> hd s \<noteq> CHR ''.''"
proof (cases s)
  case Nil
  with assms show ?thesis by (simp add: multiLetterRoot_def upper_def)
next
  case (Cons c cs)
  have "c \<noteq> CHR ''.''"
  proof
    assume "c = CHR ''.''"
    with assms Cons have "matches (Seq (Seq Zero (Seq upper (Star upper))) (Alt One (Seq (Chr CHR ''.'') (Star anychar)))) cs"
      by (simp add: multiLetterRoot_def upper_def in_range_def)
    then show False by (simp only: matches_dead)
  qed
  with Cons show ?thesis by simp
qed

lemma indexOf_zero: "s \<noteq> [] \<Longrightarrow> hd s \<noteq> c \<Longrightarrow> indexOf s c \<noteq> 0"
  using indexOf_ge[of "tl s" c] by (cases s) (auto simp: Let_def)

lemma split_by_index:
  assumes "s \<noteq> []" "hd s \<noteq> c"
  shows "(if indexOf s c > 0
          then substring s 0 (nat (indexOf s c)) # split c (substringFrom s (nat (indexOf s c + 1)))
          else [s]) = split c s"
proof (cases "indexOf s c > 0")
  case True
  then have "0 \<le> indexOf s c" by simp
  from split_at_indexOf[OF this] True show ?thesis
    by (simp add: substring_def substringFrom_def)
next
  case False
  with indexOf_zero[OF assms] have "indexOf s c < 0" by simp
  then have "c \<notin> set s" by (simp add: indexOf_none)
  with False show ?thesis by (simp add: split_no_sep)
qed

lemma indexOf_lt: "indexOf s c < int (length s)"
  by (induction s) (auto simp: Let_def)

lemma slice_butlast: "slice xs 0 (length xs - Suc 0) = butlast xs"
  by (simp add: slice_def butlast_conv_take)

lemma join_cons: "ps \<noteq> [] \<Longrightarrow> join d (p # ps) = p @ d # join d ps"
  by (cases ps) auto

lemma parseLineageName_split:
  assumes "nm \<noteq> []"
  shows "parts (parseLineageName nm) = split CHR ''.'' nm"
    and "parent (parseLineageName nm) =
           (if length (split CHR ''.'' nm) > 1
            then Some (join CHR ''.'' (butlast (split CHR ''.'' nm))) else None)"
proof -
  show "parts (parseLineageName nm) = split CHR ''.'' nm"
  proof (cases "matches multiLetterRoot nm")
    case True
    from multiLetterRoot_first[OF True] have "nm \<noteq> []" "hd nm \<noteq> CHR ''.''" by auto
    from split_by_index[OF this] True assms show ?thesis
      by (auto simp: parseLineageName_def Let_def split: if_splits)
  next
    case False
    with assms show ?thesis by (simp add: parseLineageName_def Let_def)
  qed
  show "parent (parseLineageName nm) =
           (if length (split CHR ''.'' nm) > 1
            then Some (join CHR ''.'' (butlast (split CHR ''.'' nm))) else None)"
  proof (cases "matches multiLetterRoot nm")
    case True
    from multiLetterRoot_first[OF True] have ne: "nm \<noteq> []" "hd nm \<noteq> CHR ''.''" by auto
    show ?thesis
    proof (cases "indexOf nm CHR ''.'' > 0")
      case pos: True
      define rootPart where "rootPart = substring nm 0 (nat (indexOf nm CHR ''.''))"
      define ps where "ps = split CHR ''.'' (substringFrom nm (nat (indexOf nm CHR ''.'' + 1)))"
      from split_by_index[OF ne] pos have sp: "split CHR ''.'' nm = rootPart # ps"
        by (simp add: rootPart_def ps_def)
      have psne: "ps \<noteq> []" by (simp add: ps_def split_nonempty)
      have par: "parent (parseLineageName nm) =
         (if length ps > 1 then Some (rootPart @ ''.'' @ join CHR ''.'' (slice ps 0 (length ps - 1)))
          else Some rootPart)"
        using True pos assms by (simp add: parseLineageName_def Let_def rootPart_def ps_def)
      show ?thesis
      proof (cases "length ps > 1")
        case True
        then have "butlast ps \<noteq> []" by (cases ps) auto
        with True psne par sp show ?thesis by (simp add: slice_butlast join_cons)
      next
        case False
        with psne have "butlast ps = []" by (cases ps) auto
        with False psne par sp show ?thesis by simp
      qed
    next
      case False
      with split_by_index[OF ne] have "split CHR ''.'' nm = [nm]" by simp
      with True False assms show ?thesis by (simp add: parseLineageName_def Let_def)
    qed
  next
    case False
    with assms show ?thesis by (simp add: parseLineageName_def Let_def slice_butlast)
  qed
qed

lemma extractLineageRoot_split:
  assumes "nm \<noteq> []"
  shows "nameParts (extractLineageRoot nm) = split CHR ''.'' nm"
proof (cases "startsWith nm ''X''")
  case True
  then have hd: "hd nm \<noteq> CHR ''.''" using assms by (cases nm) (auto simp: startsWith_def)
  from split_by_index[OF assms hd] True assms indexOf_lt[of nm "CHR ''.''"] show ?thesis
    by (auto simp: extractLineageRoot_def Let_def split: if_splits)
next
  case notX: False
  show ?thesis
  proof (cases "matches multiLetterRoot nm")
    case True
    from multiLetterRoot_first[OF True] have "nm \<noteq> []" "hd nm \<noteq> CHR ''.''" by auto
    from split_by_index[OF this] True notX assms show ?thesis
      by (auto simp: extractLineageRoot_def Let_def split: if_splits)
  next
    case False
    with notX assms show ?thesis by (simp add: extractLineageRoot_def Let_def)
  qed
qed

section \<open>Linking, accumulating and sorting the forest\<close>

lemma length_join_butlast:
  "length ps > 1 \<Longrightarrow> length (join d (butlast ps)) < length (join d ps)"
proof (induction ps rule: join.induct)
  case (1 d)
  then show ?case by simp
next
  case (2 d p)
  then show ?case by simp
next
  case (3 d p q ps)
  show ?case
  proof (cases ps)
    case Nil
    then show ?thesis by simp
  next
    case (Cons r rs)
    with 3 have "length (join d (butlast (q # ps))) < length (join d (q # ps))" by simp
    with Cons show ?thesis by simp
  qed
qed

lemma parent_shorter:
  assumes "parent (parseLineageName s) = Some p"
  shows "length p < length s"
proof (cases "s = []")
  case True
  with assms show ?thesis by (simp add: parseLineageName_def)
next
  case False
  from parseLineageName_split(2)[OF False] assms
  have gt: "length (split CHR ''.'' s) > 1" and p: "p = join CHR ''.'' (butlast (split CHR ''.'' s))"
    by (auto split: if_splits)
  from length_join_butlast[OF gt, of "CHR ''.''"] p show ?thesis by (simp add: join_split)
qed

lemma set_objectValues: "set (objectValues obj) = snd ` set obj"
  by (auto simp: objectValues_def)

lemma maxNameLength_ge: "e \<in> set m \<Longrightarrow> length (name (snd e)) \<le> maxNameLength m"
  unfolding maxNameLength_def by (induction m) auto

lemma childrenOf_longer:
  assumes "c \<in> set (childrenOf m p)"
  shows "length p < length (name c)" and "length (name c) \<le> maxNameLength m"
proof -
  from assms obtain nd where nd: "nd \<in> set (objectValues m)" "placementOf m nd = ChildOf p"
    and c: "c = nd\<lparr>parentName := Some p\<rparr>" by (auto simp: childrenOf_def)
  from nd(2) have "parent (parseLineageName (name nd)) = Some p"
    by (auto simp: placementOf_def split: option.splits if_splits property.splits)
  from parent_shorter[OF this] c show "length p < length (name c)" by simp
  from nd(1) obtain e where "e \<in> set m" "nd = snd e" by (auto simp: set_objectValues)
  with maxNameLength_ge[of e m] c show "length (name c) \<le> maxNameLength m" by simp
qed

text \<open>
  The tree below a node: the node with the trees of the nodes pushed onto its
  \<open>children\<close> array. A child's name is strictly longer than its parent's and no longer
  than the longest name in the map, so the unfolding ends.
\<close>

function linkTree :: "lineageMap \<Rightarrow> node \<Rightarrow> lineageNode" where
  "linkTree m nd = LineageNode nd (map (linkTree m) (childrenOf m (name nd)))"
  by pat_completeness auto
termination
proof (relation "measure (\<lambda>(m, nd). Suc (maxNameLength m) - length (name nd))")
  show "wf (measure (\<lambda>(m, nd). Suc (maxNameLength m) - length (name nd)))" by simp
next
  fix m :: lineageMap and nd x :: node
  assume "x \<in> set (childrenOf m (name nd))"
  from childrenOf_longer[OF this]
  show "((m, x), (m, nd)) \<in> measure (\<lambda>(m, nd). Suc (maxNameLength m) - length (name nd))"
    by simp
qed

declare linkTree.simps [simp del]

text \<open>\<open>accumulateChildCounts\<close>: the node with its counts updated, and the returned
  \<open>{totalCount, sampleCount, internalCount}\<close>.\<close>

fun accumulateChildCounts :: "lineageNode \<Rightarrow> lineageNode \<times> int \<times> int \<times> int" where
  "accumulateChildCounts (LineageNode nd cs) =
     (if cs = [] then
        (LineageNode nd cs, originalCount nd, sampleCount nd, internalCount nd)
      else
        (let results = map accumulateChildCounts cs;
             totalChildrenCount = foldl (\<lambda>acc r. acc + fst (snd r)) 0 results;
             totalSampleCount = foldl (\<lambda>acc r. acc + fst (snd (snd r))) (sampleCount nd) results;
             totalInternalCount =
               foldl (\<lambda>acc r. acc + snd (snd (snd r))) (internalCount nd) results;
             nd' = nd\<lparr>count := originalCount nd + totalChildrenCount,
                      sampleCount := totalSampleCount,
                      internalCount := totalInternalCount,
                      totalTaxa := Some (totalSampleCount + totalInternalCount)\<rparr>
         in (LineageNode nd' (map fst results),
             count nd', totalSampleCount, totalInternalCount)))"

text \<open>\<open>nodes.sort(sortByCount)\<close> with \<open>sortByCount = (a, b) => b.count - a.count\<close>: a stable
  sort, descending by \<open>count\<close>.\<close>

definition sortByCount :: "lineageNode list \<Rightarrow> lineageNode list" where
  "sortByCount nodes = sort_key (\<lambda>n. - count (info n)) nodes"

function sortChildren :: "lineageNode \<Rightarrow> lineageNode" where
  "sortChildren (LineageNode nd cs) =
     (if cs \<noteq> [] then LineageNode nd (map sortChildren (sortByCount cs))
      else LineageNode nd cs)"
  by pat_completeness auto
termination
proof (relation "measure size")
  show "wf (measure size)" by simp
next
  fix nd :: node and cs :: "lineageNode list" and x :: lineageNode
  assume "x \<in> set (sortByCount cs)"
  then have "x \<in> set cs" by (simp add: sortByCount_def)
  then have "size x \<le> size_list size cs" by (rule size_list_estimation') simp
  then show "(x, LineageNode nd cs) \<in> measure size" by simp
qed

text \<open>\<open>organizeLineageHierarchy\<close>\<close>

definition organizeLineageHierarchy ::
  "lineage list \<Rightarrow> (string \<Rightarrow> string option) option \<Rightarrow> jsError + lineageNode list" where
  "organizeLineageHierarchy lineages nodeTypes =
     (if lineages = [] then Inr []
      else
        (case firstPass nodeTypes [] lineages of
           Inl e \<Rightarrow> Inl e
         | Inr lineageMap \<Rightarrow>
             if pushFails lineageMap then Inl TypeError
             else
               (let linked = map (linkTree lineageMap) (rootLineages lineageMap);
                    accumulated = map (\<lambda>r. fst (accumulateChildCounts r)) linked
                in Inr (map sortChildren (sortByCount accumulated)))))"

text \<open>Every node object reachable in a tree, and in a forest.\<close>

fun nodesOf :: "lineageNode \<Rightarrow> lineageNode list" where
  "nodesOf (LineageNode nd cs) = LineageNode nd cs # concat (map nodesOf cs)"

definition forestNodes :: "lineageNode list \<Rightarrow> lineageNode list" where
  "forestNodes forest = concat (map nodesOf forest)"

section \<open>Invariants of the built forest\<close>

text \<open>
  \<open>ownOnly\<close> describes a node as the first pass leaves it; \<open>countInvariant\<close> and
  \<open>taxaInvariant\<close> describe a node of the returned forest.
\<close>

definition ownOnly :: "node \<Rightarrow> bool" where
  "ownOnly nd \<longleftrightarrow> count nd = originalCount nd \<and> totalTaxa nd = None"

definition countInvariant :: "lineageNode \<Rightarrow> bool" where
  "countInvariant n \<longleftrightarrow>
     count (info n) = originalCount (info n) + sum_list (map (\<lambda>c. count (info c)) (children n))"

definition taxaInvariant :: "lineageNode \<Rightarrow> bool" where
  "taxaInvariant n \<longleftrightarrow>
     totalTaxa (info n) =
       (if children n = [] then None else Some (sampleCount (info n) + internalCount (info n)))"


text \<open>
  Notions used to describe the first pass and the linked forest: the entry synthesized
  for a parent, a map whose keys are distinct and equal to the names of their nodes, the
  names an input mentions, a node as the second pass leaves it, and the nodes of the
  linked forest.
\<close>

definition syntheticEntry :: "string \<Rightarrow> string \<times> node" where
  "syntheticEntry p =
     (p, parentNode p (case generatePangoLineageColor p None of Inr c \<Rightarrow> c | Inl e \<Rightarrow> []))"

definition wellKeyed :: "lineageMap \<Rightarrow> bool" where
  "wellKeyed m \<longleftrightarrow> distinct (map fst m) \<and> (\<forall>e \<in> set m. name (snd e) = fst e)"

definition mentioned :: "lineage list \<Rightarrow> string set" where
  "mentioned ls = (\<Union>x \<in> set ls. insert (lin_value x) (set (getAllParentLineages (lin_value x))))"

definition placed :: "lineageMap \<Rightarrow> node \<Rightarrow> node" where
  "placed m nd =
     (case placementOf m nd of ChildOf p \<Rightarrow> nd\<lparr>parentName := Some p\<rparr> | _ \<Rightarrow> nd)"

definition linkedNodes :: "lineageMap \<Rightarrow> lineageNode set" where
  "linkedNodes m = (\<Union>r \<in> set (rootLineages m). set (nodesOf (linkTree m r)))"

text \<open>No entry names an ancestor of an earlier entry.\<close>

fun ancestorsFirst :: "lineage list \<Rightarrow> bool" where
  "ancestorsFirst [] = True"
| "ancestorsFirst (x # rest) =
     ((\<forall>y \<in> set rest. lin_value y \<notin> set (getAllParentLineages (lin_value x))) \<and>
      ancestorsFirst rest)"

definition dataKeys :: "lineage list \<Rightarrow> string set" where
  "dataKeys ls = {lin_value x | x. x \<in> set ls \<and> lin_value x \<noteq> []}"

definition parentKeys :: "lineage list \<Rightarrow> string set" where
  "parentKeys ls = (\<Union>x \<in> set ls. set (getAllParentLineages (lin_value x)))"

definition canonicalMap :: "(string \<Rightarrow> string option) option \<Rightarrow> lineage list \<Rightarrow> (string \<times> node) set" where
  "canonicalMap nt ls =
     {(lin_value x, dataNode nt x) | x.
        x \<in> set ls \<and> lin_value x \<noteq> [] \<and> lin_value x \<notin> set objectPrototypeKeys} \<union>
     syntheticEntry `
       {p. p \<in> parentKeys ls \<and> p \<notin> dataKeys ls \<and> p \<notin> set objectPrototypeKeys}"

text \<open>What accumulation makes of a node, from the node and the totals its children
  return.\<close>

definition combine :: "node \<Rightarrow> (int \<times> int \<times> int) list \<Rightarrow> node \<times> int \<times> int \<times> int" where
  "combine nd ts =
     (if ts = [] then (nd, originalCount nd, sampleCount nd, internalCount nd)
      else
        (let tc = originalCount nd + sum_list (map fst ts);
             sc = sampleCount nd + sum_list (map (\<lambda>t. fst (snd t)) ts);
             ic = internalCount nd + sum_list (map (\<lambda>t. snd (snd t)) ts)
         in (nd\<lparr>count := tc, sampleCount := sc, internalCount := ic, totalTaxa := Some (sc + ic)\<rparr>,
             tc, sc, ic)))"

definition summary :: "lineageNode \<Rightarrow> node \<times> int \<times> int \<times> int" where
  "summary t = (info (fst (accumulateChildCounts t)), snd (accumulateChildCounts t))"

section \<open>The matcher decides the language\<close>

lemma nullable_lang: "nullable r \<longleftrightarrow> [] \<in> lang r"
  by (induction r) (auto simp: conc_def intro: star_nil)

lemma conc_cons:
  "c # w \<in> conc A B \<longleftrightarrow>
     ([] \<in> A \<and> c # w \<in> B) \<or> (\<exists>u v. c # u \<in> A \<and> v \<in> B \<and> w = u @ v)"
proof
  assume "c # w \<in> conc A B"
  then obtain a b where ab: "c # w = a @ b" "a \<in> A" "b \<in> B" by (auto simp: conc_def)
  show "([] \<in> A \<and> c # w \<in> B) \<or> (\<exists>u v. c # u \<in> A \<and> v \<in> B \<and> w = u @ v)"
  proof (cases a)
    case Nil
    with ab show ?thesis by simp
  next
    case (Cons x u)
    with ab have "c # u \<in> A" "w = u @ b" by auto
    with ab(3) show ?thesis by blast
  qed
next
  assume "([] \<in> A \<and> c # w \<in> B) \<or> (\<exists>u v. c # u \<in> A \<and> v \<in> B \<and> w = u @ v)"
  then show "c # w \<in> conc A B"
  proof
    assume "[] \<in> A \<and> c # w \<in> B"
    then have "[] @ (c # w) \<in> conc A B" unfolding conc_def by blast
    then show ?thesis by simp
  next
    assume "\<exists>u v. c # u \<in> A \<and> v \<in> B \<and> w = u @ v"
    then obtain u v where "c # u \<in> A" "v \<in> B" "w = u @ v" by blast
    then have "(c # u) @ v \<in> conc A B" unfolding conc_def by blast
    with \<open>w = u @ v\<close> show ?thesis by simp
  qed
qed

lemma star_cons_split:
  assumes "x \<in> star A" "x = c # w"
  shows "\<exists>u v. c # u \<in> A \<and> v \<in> star A \<and> w = u @ v"
  using assms
proof (induction arbitrary: w rule: star.induct)
  case star_nil
  then show ?case by simp
next
  case (star_app a z)
  show ?case
  proof (cases a)
    case Nil
    with star_app show ?thesis by simp
  next
    case (Cons y u)
    with star_app.prems have "y = c" "w = u @ z" by auto
    with Cons star_app.hyps show ?thesis by blast
  qed
qed

lemma star_cons:
  "c # w \<in> star A \<longleftrightarrow> (\<exists>u v. c # u \<in> A \<and> v \<in> star A \<and> w = u @ v)"
proof
  assume "c # w \<in> star A"
  then show "\<exists>u v. c # u \<in> A \<and> v \<in> star A \<and> w = u @ v"
    using star_cons_split by blast
next
  assume "\<exists>u v. c # u \<in> A \<and> v \<in> star A \<and> w = u @ v"
  then obtain u v where uv: "c # u \<in> A" "v \<in> star A" "w = u @ v" by blast
  from star_app[OF uv(1) uv(2)] uv(3) show "c # w \<in> star A" by simp
qed

lemma deriv_lang: "w \<in> lang (deriv c r) \<longleftrightarrow> c # w \<in> lang r"
proof (induction r arbitrary: w)
  case (Seq r1 r2)
  show ?case
    by (auto simp: conc_cons nullable_lang Seq.IH) (auto simp: conc_def Seq.IH)
next
  case (Star r)
  show ?case
    by (auto simp: star_cons conc_def Star.IH)
qed auto

lemma matches_lang: "matches r s \<longleftrightarrow> s \<in> lang r"
  by (induction s arbitrary: r) (auto simp: nullable_lang deriv_lang)

lemma in_range_digit: "in_range CHR ''0'' CHR ''9'' c \<longleftrightarrow> c \<in> set ''0123456789''"
proof
  assume "c \<in> set ''0123456789''"
  then show "in_range CHR ''0'' CHR ''9'' c" by (auto simp: in_range_def)
next
  assume a: "in_range CHR ''0'' CHR ''9'' c"
  define n where "n = (of_char c :: nat)"
  have c: "c = char_of n" by (simp add: n_def)
  from a have "48 \<le> n \<and> n < 58" by (simp add: in_range_def n_def)
  then have "n \<in> {48..<58}" by (simp only: atLeastLessThan_iff)
  also have "{48..<58} = set [48..<58]" by (rule atLeastLessThan_upt)
  finally have "char_of n \<in> set (map char_of [48..<58])" by (simp only: set_map image_eqI)
  also have "map char_of [48..<58::nat] = ''0123456789''" by code_simp
  finally show "c \<in> set ''0123456789''" unfolding c .
qed

lemma in_range_upper: "in_range CHR ''A'' CHR ''Z'' c \<longleftrightarrow> c \<in> set ''ABCDEFGHIJKLMNOPQRSTUVWXYZ''"
proof
  assume "c \<in> set ''ABCDEFGHIJKLMNOPQRSTUVWXYZ''"
  then show "in_range CHR ''A'' CHR ''Z'' c" by (auto simp: in_range_def)
next
  assume a: "in_range CHR ''A'' CHR ''Z'' c"
  define n where "n = (of_char c :: nat)"
  have c: "c = char_of n" by (simp add: n_def)
  from a have "65 \<le> n \<and> n < 91" by (simp add: in_range_def n_def)
  then have "n \<in> {65..<91}" by (simp only: atLeastLessThan_iff)
  also have "{65..<91} = set [65..<91]" by (rule atLeastLessThan_upt)
  finally have "char_of n \<in> set (map char_of [65..<91])" by (simp only: set_map image_eqI)
  also have "map char_of [65..<91::nat] = ''ABCDEFGHIJKLMNOPQRSTUVWXYZ''" by code_simp
  finally show "c \<in> set ''ABCDEFGHIJKLMNOPQRSTUVWXYZ''" unfolding c .
qed

lemma in_range_lower: "in_range CHR ''a'' CHR ''z'' c \<longleftrightarrow> c \<in> set ''abcdefghijklmnopqrstuvwxyz''"
proof
  assume "c \<in> set ''abcdefghijklmnopqrstuvwxyz''"
  then show "in_range CHR ''a'' CHR ''z'' c" by (auto simp: in_range_def)
next
  assume a: "in_range CHR ''a'' CHR ''z'' c"
  define n where "n = (of_char c :: nat)"
  have c: "c = char_of n" by (simp add: n_def)
  from a have "97 \<le> n \<and> n < 123" by (simp add: in_range_def n_def)
  then have "n \<in> {97..<123}" by (simp only: atLeastLessThan_iff)
  also have "{97..<123} = set [97..<123]" by (rule atLeastLessThan_upt)
  finally have "char_of n \<in> set (map char_of [97..<123])" by (simp only: set_map image_eqI)
  also have "map char_of [97..<123::nat] = ''abcdefghijklmnopqrstuvwxyz''" by code_simp
  finally show "c \<in> set ''abcdefghijklmnopqrstuvwxyz''" unfolding c .
qed

lemma star_singletons: "w \<in> star {[c] | c. P c} \<longleftrightarrow> (\<forall>x \<in> set w. P x)"
proof
  assume "w \<in> star {[c] | c. P c}"
  then show "\<forall>x \<in> set w. P x" by (induction rule: star.induct) auto
next
  assume "\<forall>x \<in> set w. P x"
  then show "w \<in> star {[c] | c. P c}"
  proof (induction w)
    case Nil
    show ?case by (rule star_nil)
  next
    case (Cons x w)
    then have "[x] \<in> {[c] | c. P c}" "w \<in> star {[c] | c. P c}" by auto
    from star_app[OF this] show ?case by simp
  qed
qed

lemma star_concat: "w \<in> star A \<longleftrightarrow> (\<exists>ws. w = concat ws \<and> set ws \<subseteq> A)"
proof
  assume "w \<in> star A"
  then show "\<exists>ws. w = concat ws \<and> set ws \<subseteq> A"
  proof (induction rule: star.induct)
    case star_nil
    have "[] = concat [] \<and> set [] \<subseteq> A" by simp
    then show ?case by blast
  next
    case (star_app a w)
    then obtain ws where "w = concat ws" "set ws \<subseteq> A" by blast
    with star_app.hyps(1) have "a @ w = concat (a # ws) \<and> set (a # ws) \<subseteq> A" by simp
    then show ?case by blast
  qed
next
  assume "\<exists>ws. w = concat ws \<and> set ws \<subseteq> A"
  then obtain ws where "w = concat ws" "set ws \<subseteq> A" by blast
  then show "w \<in> star A"
  proof (induction ws arbitrary: w)
    case Nil
    then show ?case by (simp add: star_nil)
  next
    case (Cons a ws)
    then have "a \<in> A" "concat ws \<in> star A" by auto
    from star_app[OF this] Cons.prems(1) show ?case by simp
  qed
qed

lemma lang_digits:
  "w \<in> lang (Plus digit) \<longleftrightarrow> w \<noteq> [] \<and> (\<forall>x \<in> set w. isDigitChar x)"
proof -
  have D: "lang digit = {[c] | c. isDigitChar c}"
    by (simp add: digit_def in_range_digit isDigitChar_def)
  show ?thesis
  proof (cases w)
    case Nil
    then show ?thesis by (simp add: Plus_def conc_def D)
  next
    case (Cons x u)
    have "x # u \<in> conc (lang digit) (star (lang digit)) \<longleftrightarrow> isDigitChar x \<and> (\<forall>y \<in> set u. isDigitChar y)"
      unfolding conc_cons D star_singletons by auto
    with Cons show ?thesis by (simp add: Plus_def)
  qed
qed

lemma lang_group:
  "w \<in> lang (Seq (Chr CHR ''.'') (Plus digit)) \<longleftrightarrow>
     (\<exists>g. w = CHR ''.'' # g \<and> g \<noteq> [] \<and> (\<forall>x \<in> set g. isDigitChar x))"
proof -
  have "w \<in> lang (Seq (Chr CHR ''.'') (Plus digit)) \<longleftrightarrow>
        (\<exists>g. w = CHR ''.'' # g \<and> g \<in> lang (Plus digit))"
    by (auto simp: conc_def)
  then show ?thesis by (simp add: lang_digits)
qed

lemma isLetterChar_iff:
  "isLetterChar c \<longleftrightarrow> in_range CHR ''A'' CHR ''Z'' c \<or> in_range CHR ''a'' CHR ''z'' c"
proof -
  have "''ABCDEFGHIJKLMNOPQRSTUVWXYZabcdefghijklmnopqrstuvwxyz'' =
        ''ABCDEFGHIJKLMNOPQRSTUVWXYZ'' @ ''abcdefghijklmnopqrstuvwxyz''" by simp
  then have "isLetterChar c \<longleftrightarrow>
      c \<in> set ''ABCDEFGHIJKLMNOPQRSTUVWXYZ'' \<union> set ''abcdefghijklmnopqrstuvwxyz''"
    unfolding isLetterChar_def by (simp only: set_append)
  then show ?thesis by (simp only: in_range_upper in_range_lower Un_iff)
qed

lemma lang_letter: "lang letter = {[c] | c. isLetterChar c}"
  unfolding letter_def by (auto simp: isLetterChar_iff)

lemma groups_concat:
  "(\<exists>ws. w = concat ws \<and> set ws \<subseteq> lang (Seq (Chr CHR ''.'') (Plus digit))) \<longleftrightarrow>
   (\<exists>gs. w = concat (map (\<lambda>g. CHR ''.'' # g) gs) \<and>
         (\<forall>g \<in> set gs. g \<noteq> [] \<and> (\<forall>x \<in> set g. isDigitChar x)))"
proof
  assume "\<exists>ws. w = concat ws \<and> set ws \<subseteq> lang (Seq (Chr CHR ''.'') (Plus digit))"
  then obtain ws where ws: "w = concat ws" "set ws \<subseteq> lang (Seq (Chr CHR ''.'') (Plus digit))"
    by blast
  have each: "\<forall>u \<in> set ws. u = CHR ''.'' # tl u \<and> tl u \<noteq> [] \<and> (\<forall>x \<in> set (tl u). isDigitChar x)"
  proof
    fix u assume "u \<in> set ws"
    with ws(2) have "u \<in> lang (Seq (Chr CHR ''.'') (Plus digit))" by blast
    then obtain g where "u = CHR ''.'' # g" "g \<noteq> []" "\<forall>x \<in> set g. isDigitChar x"
      unfolding lang_group by blast
    then show "u = CHR ''.'' # tl u \<and> tl u \<noteq> [] \<and> (\<forall>x \<in> set (tl u). isDigitChar x)" by simp
  qed
  then have "map (\<lambda>g. CHR ''.'' # g) (map tl ws) = ws"
    by (induction ws) auto
  with ws(1) have "w = concat (map (\<lambda>g. CHR ''.'' # g) (map tl ws))" by simp
  moreover from each have "\<forall>g \<in> set (map tl ws). g \<noteq> [] \<and> (\<forall>x \<in> set g. isDigitChar x)" by auto
  ultimately show "\<exists>gs. w = concat (map (\<lambda>g. CHR ''.'' # g) gs) \<and>
         (\<forall>g \<in> set gs. g \<noteq> [] \<and> (\<forall>x \<in> set g. isDigitChar x))" by blast
next
  assume "\<exists>gs. w = concat (map (\<lambda>g. CHR ''.'' # g) gs) \<and>
         (\<forall>g \<in> set gs. g \<noteq> [] \<and> (\<forall>x \<in> set g. isDigitChar x))"
  then obtain gs where gs: "w = concat (map (\<lambda>g. CHR ''.'' # g) gs)"
    "\<forall>g \<in> set gs. g \<noteq> [] \<and> (\<forall>x \<in> set g. isDigitChar x)" by blast
  have "set (map (\<lambda>g. CHR ''.'' # g) gs) \<subseteq> lang (Seq (Chr CHR ''.'') (Plus digit))"
  proof
    fix u assume "u \<in> set (map (\<lambda>g. CHR ''.'' # g) gs)"
    then obtain g where "g \<in> set gs" "u = CHR ''.'' # g" by auto
    with gs(2) have "\<exists>g. u = CHR ''.'' # g \<and> g \<noteq> [] \<and> (\<forall>x \<in> set g. isDigitChar x)" by blast
    then show "u \<in> lang (Seq (Chr CHR ''.'') (Plus digit))" by (simp only: lang_group)
  qed
  with gs(1) show "\<exists>ws. w = concat ws \<and> set ws \<subseteq> lang (Seq (Chr CHR ''.'') (Plus digit))"
    by blast
qed

lemma matches_pangoPattern: "matches pangoPattern nm \<longleftrightarrow> pangoGrammar nm"
proof (cases nm)
  case Nil
  then show ?thesis by (simp add: pangoPattern_def letter_def pangoGrammar_def)
next
  case (Cons c w)
  have "matches pangoPattern (c # w) \<longleftrightarrow>
        c # w \<in> conc (lang letter) (star (lang (Seq (Chr CHR ''.'') (Plus digit))))"
    by (simp only: matches_lang pangoPattern_def lang.simps)
  also have "\<dots> \<longleftrightarrow> isLetterChar c \<and> w \<in> star (lang (Seq (Chr CHR ''.'') (Plus digit)))"
    unfolding conc_cons lang_letter by auto
  also have "\<dots> \<longleftrightarrow> isLetterChar c \<and>
      (\<exists>gs. w = concat (map (\<lambda>g. CHR ''.'' # g) gs) \<and>
         (\<forall>g \<in> set gs. g \<noteq> [] \<and> (\<forall>x \<in> set g. isDigitChar x)))"
    by (simp only: star_concat groups_concat)
  also have "\<dots> \<longleftrightarrow> pangoGrammar (c # w)"
    unfolding pangoGrammar_def by auto
  finally show ?thesis using Cons by simp
qed

lemma pangoGrammar_nonempty: "pangoGrammar nm \<Longrightarrow> nm \<noteq> []"
  by (auto simp: pangoGrammar_def)

section \<open>Facts about the hierarchy builder\<close>

lemma addParents_ownOnly:
  "addParents m ps = Inr m' \<Longrightarrow> \<forall>e \<in> set m. ownOnly (snd e) \<Longrightarrow> \<forall>e \<in> set m'. ownOnly (snd e)"
proof (induction m ps rule: addParents.induct)
  case (1 m)
  then show ?case by simp
next
  case (2 m p ps)
  show ?case
  proof (cases "truthyProperty m p")
    case True
    with 2 show ?thesis by simp
  next
    case False
    with "2.prems"(1) obtain c where c: "generatePangoLineageColor p None = Inr c"
      and rec: "addParents (m @ [(p, parentNode p c)]) ps = Inr m'"
      by (auto split: sum.splits)
    have "\<forall>e \<in> set (m @ [(p, parentNode p c)]). ownOnly (snd e)"
      using "2.prems"(2) by (auto simp: ownOnly_def parentNode_def)
    from "2.IH"(2)[OF False c rec this] show ?thesis .
  qed
qed

lemma addLineage_ownOnly:
  assumes "addLineage nt m lin = Inr m'" "\<forall>e \<in> set m. ownOnly (snd e)"
  shows "\<forall>e \<in> set m'. ownOnly (snd e)"
proof (cases "lin_value lin = []")
  case True
  with assms show ?thesis by (simp add: addLineage_def)
next
  case False
  let ?m1 = "if truthyProperty m (lin_value lin) then m
             else m @ [(lin_value lin, dataNode nt lin)]"
  from assms(1) False have a: "addParents ?m1 (getAllParentLineages (lin_value lin)) = Inr m'"
    by (simp add: addLineage_def)
  have "\<forall>e \<in> set ?m1. ownOnly (snd e)"
    using assms(2) by (auto simp: ownOnly_def dataNode_def)
  from addParents_ownOnly[OF a this] show ?thesis .
qed

lemma firstPass_ownOnly:
  "firstPass nt m ls = Inr m' \<Longrightarrow> \<forall>e \<in> set m. ownOnly (snd e) \<Longrightarrow> \<forall>e \<in> set m'. ownOnly (snd e)"
proof (induction ls arbitrary: m)
  case Nil
  then show ?case by simp
next
  case (Cons lin ls)
  from Cons.prems(1) obtain m1 where a: "addLineage nt m lin = Inr m1"
    and b: "firstPass nt m1 ls = Inr m'" by (auto split: sum.splits)
  from Cons.IH[OF b addLineage_ownOnly[OF a Cons.prems(2)]] show ?case .
qed

lemma rootLineages_subset: "nd \<in> set (rootLineages m) \<Longrightarrow> nd \<in> snd ` set m"
  by (auto simp: rootLineages_def set_objectValues)

lemma childrenOf_ownOnly:
  assumes "\<forall>e \<in> set m. ownOnly (snd e)" "c \<in> set (childrenOf m p)"
  shows "ownOnly c"
proof -
  from assms(2) obtain nd where "nd \<in> set (objectValues m)" "c = nd\<lparr>parentName := Some p\<rparr>"
    by (auto simp: childrenOf_def)
  with assms(1) show ?thesis by (auto simp: set_objectValues ownOnly_def)
qed

lemma info_linkTree: "info (linkTree m nd) = nd"
  by (subst linkTree.simps) simp

lemma children_linkTree: "children (linkTree m nd) = map (linkTree m) (childrenOf m (name nd))"
  by (subst linkTree.simps) simp

lemma nodesOf_unfold: "set (nodesOf t) = insert t (\<Union>c \<in> set (children t). set (nodesOf c))"
  by (cases t) simp

lemma nodesOf_linkTree:
  "set (nodesOf (linkTree m nd)) =
     insert (linkTree m nd) (\<Union>c \<in> set (childrenOf m (name nd)). set (nodesOf (linkTree m c)))"
  by (subst nodesOf_unfold) (simp add: children_linkTree)

lemma linkTree_ownOnly:
  assumes m: "\<forall>e \<in> set m. ownOnly (snd e)"
  shows "ownOnly nd \<Longrightarrow> \<forall>n \<in> set (nodesOf (linkTree m nd)). ownOnly (info n)"
  using m
proof (induction m nd rule: linkTree.induct)
  case (1 m nd)
  have kids: "\<forall>c \<in> set (childrenOf m (name nd)). \<forall>n \<in> set (nodesOf (linkTree m c)). ownOnly (info n)"
  proof
    fix c assume c: "c \<in> set (childrenOf m (name nd))"
    from "1.IH"[OF c childrenOf_ownOnly[OF "1.prems"(2) c] "1.prems"(2)]
    show "\<forall>n \<in> set (nodesOf (linkTree m c)). ownOnly (info n)" .
  qed
  from nodesOf_linkTree[of m nd] info_linkTree[of m nd] kids "1.prems"(1)
  show ?case by auto
qed

lemma foldl_add: "foldl (\<lambda>acc r. acc + f r) (a :: int) rs = a + sum_list (map f rs)"
  by (induction rs arbitrary: a) auto

lemma accumulate_props:
  assumes "\<forall>n \<in> set (nodesOf t). ownOnly (info n)"
  shows "fst (snd (accumulateChildCounts t)) = count (info (fst (accumulateChildCounts t)))
       \<and> (\<forall>n \<in> set (nodesOf (fst (accumulateChildCounts t))). countInvariant n \<and> taxaInvariant n)"
  using assms
proof (induction t rule: accumulateChildCounts.induct)
  case (1 nd cs)
  show ?case
  proof (cases "cs = []")
    case True
    with "1.prems" show ?thesis by (simp add: ownOnly_def countInvariant_def taxaInvariant_def)
  next
    case False
    define results where "results = map accumulateChildCounts cs"
    have each: "\<forall>c \<in> set cs.
        fst (snd (accumulateChildCounts c)) = count (info (fst (accumulateChildCounts c)))
      \<and> (\<forall>n \<in> set (nodesOf (fst (accumulateChildCounts c))). countInvariant n \<and> taxaInvariant n)"
    proof
      fix c assume c: "c \<in> set cs"
      with "1.prems" have "\<forall>n \<in> set (nodesOf c). ownOnly (info n)" by auto
      from "1.IH"[OF False c this]
      show "fst (snd (accumulateChildCounts c)) = count (info (fst (accumulateChildCounts c)))
      \<and> (\<forall>n \<in> set (nodesOf (fst (accumulateChildCounts c))). countInvariant n \<and> taxaInvariant n)" .
    qed
    define ts where "ts = foldl (\<lambda>acc r. acc + fst (snd (snd r))) (sampleCount nd) results"
    define ti where "ti = foldl (\<lambda>acc r. acc + snd (snd (snd r))) (internalCount nd) results"
    define tc where "tc = foldl (\<lambda>acc r. acc + fst (snd r)) 0 results"
    define nd' where "nd' = nd\<lparr>count := originalCount nd + tc, sampleCount := ts,
                      internalCount := ti, totalTaxa := Some (ts + ti)\<rparr>"
    have acc: "accumulateChildCounts (LineageNode nd cs) =
               (LineageNode nd' (map fst results), count nd', ts, ti)"
      using False by (simp add: Let_def results_def ts_def ti_def tc_def nd'_def)
    have tc_sum: "tc = sum_list (map (\<lambda>c. count (info c)) (map fst results))"
    proof -
      have "tc = sum_list (map (\<lambda>r. fst (snd r)) results)" by (simp add: tc_def foldl_add)
      also have "\<dots> = sum_list (map (\<lambda>c. count (info c)) (map fst results))"
        unfolding results_def using each by (induction cs) auto
      finally show ?thesis .
    qed
    have top: "countInvariant (LineageNode nd' (map fst results))"
      by (simp add: countInvariant_def nd'_def tc_sum)
    have top2: "taxaInvariant (LineageNode nd' (map fst results))"
      using False by (simp add: taxaInvariant_def nd'_def results_def)
    have below: "\<forall>n \<in> set (concat (map nodesOf (map fst results))). countInvariant n \<and> taxaInvariant n"
      unfolding results_def using each by auto
    show ?thesis unfolding acc using top top2 below by simp
  qed
qed

lemma sum_list_insort_key:
  "sum_list (map g (insort_key f x xs)) = g x + sum_list (map (g :: 'a \<Rightarrow> int) xs)"
  by (induction xs) auto

lemma sum_list_sort_key: "sum_list (map g (sort_key f xs)) = sum_list (map (g :: 'a \<Rightarrow> int) xs)"
  by (induction xs) (auto simp: sum_list_insort_key)

lemma sortByCount_Nil: "sortByCount cs = [] \<longleftrightarrow> cs = []"
proof -
  have "length (sortByCount cs) = length cs" by (simp add: sortByCount_def)
  then show ?thesis by (metis length_0_conv)
qed

lemma info_sortChildren: "info (sortChildren t) = info t"
  by (cases t) simp

lemma sortChildren_invariants:
  "\<forall>n \<in> set (nodesOf t). countInvariant n \<and> taxaInvariant n \<Longrightarrow>
   \<forall>n \<in> set (nodesOf (sortChildren t)). countInvariant n \<and> taxaInvariant n"
proof (induction t rule: sortChildren.induct)
  case (1 nd cs)
  show ?case
  proof (cases "cs = []")
    case True
    with "1.prems" show ?thesis by simp
  next
    case False
    have kids: "\<forall>c \<in> set (sortByCount cs). \<forall>n \<in> set (nodesOf (sortChildren c)). countInvariant n \<and> taxaInvariant n"
    proof
      fix c assume c: "c \<in> set (sortByCount cs)"
      then have "c \<in> set cs" by (simp add: sortByCount_def)
      with "1.prems" have "\<forall>n \<in> set (nodesOf c). countInvariant n \<and> taxaInvariant n" by auto
      from "1.IH"[OF False c this]
      show "\<forall>n \<in> set (nodesOf (sortChildren c)). countInvariant n \<and> taxaInvariant n" .
    qed
    have "sum_list (map (\<lambda>c. count (info c)) (map sortChildren (sortByCount cs))) =
          sum_list (map (\<lambda>c. count (info c)) cs)"
      by (simp add: o_def info_sortChildren sortByCount_def sum_list_sort_key)
    moreover from "1.prems" have "countInvariant (LineageNode nd cs)" "taxaInvariant (LineageNode nd cs)"
      by auto
    ultimately have "countInvariant (LineageNode nd (map sortChildren (sortByCount cs)))"
      "taxaInvariant (LineageNode nd (map sortChildren (sortByCount cs)))"
      using False by (simp_all add: countInvariant_def taxaInvariant_def sortByCount_Nil)
    with kids False show ?thesis by auto
  qed
qed

lemma forest_invariants:
  assumes "organizeLineageHierarchy ls nt = Inr forest" "n \<in> set (forestNodes forest)"
  shows "countInvariant n \<and> taxaInvariant n"
proof (cases "ls = []")
  case True
  with assms show ?thesis by (simp add: organizeLineageHierarchy_def forestNodes_def)
next
  case False
  with assms(1) obtain m where m: "firstPass nt [] ls = Inr m"
    and forest: "forest = map sortChildren (sortByCount
         (map (\<lambda>r. fst (accumulateChildCounts r)) (map (linkTree m) (rootLineages m))))"
    by (auto simp: organizeLineageHierarchy_def Let_def split: sum.splits if_splits)
  from firstPass_ownOnly[OF m] have own: "\<forall>e \<in> set m. ownOnly (snd e)" by simp
  from assms(2) forest obtain r where r: "r \<in> set (rootLineages m)"
    and n: "n \<in> set (nodesOf (sortChildren (fst (accumulateChildCounts (linkTree m r)))))"
    by (auto simp: forestNodes_def sortByCount_def)
  from rootLineages_subset[OF r] own have "ownOnly r" by auto
  from linkTree_ownOnly[OF own this]
  have "\<forall>x \<in> set (nodesOf (linkTree m r)). ownOnly (info x)" .
  from accumulate_props[OF this]
  have "\<forall>x \<in> set (nodesOf (fst (accumulateChildCounts (linkTree m r)))). countInvariant x \<and> taxaInvariant x"
    by simp
  from sortChildren_invariants[OF this] n show ?thesis by blast
qed

subsection \<open>The first pass, entry by entry\<close>

lemma truthyProperty_iff:
  "truthyProperty m k \<longleftrightarrow> k \<in> fst ` set m \<or> k \<in> set objectPrototypeKeys"
proof -
  have "map_of m k = None \<longleftrightarrow> k \<notin> fst ` set m" by (rule map_of_eq_None_iff)
  then show ?thesis
    by (cases "map_of m k") (auto simp: truthyProperty_def getProperty_def)
qed

lemma name_syntheticEntry: "name (snd (syntheticEntry p)) = p" "fst (syntheticEntry p) = p"
  by (simp_all add: syntheticEntry_def parentNode_def)

lemma addParents_result:
  assumes "addParents m ps = Inr m'"
  shows "\<exists>extra. m' = m @ extra \<and>
           set extra = {syntheticEntry q | q. q \<in> set ps \<and> \<not> truthyProperty m q} \<and>
           (wellKeyed m \<longrightarrow> wellKeyed m')"
  using assms
proof (induction m ps arbitrary: m' rule: addParents.induct)
  case (1 m)
  then show ?case by simp
next
  case (2 m p ps)
  show ?case
  proof (cases "truthyProperty m p")
    case True
    with "2.prems" have "addParents m ps = Inr m'" by simp
    from "2.IH"(1)[OF True this] obtain extra where
      e: "m' = m @ extra" "set extra = {syntheticEntry q | q. q \<in> set ps \<and> \<not> truthyProperty m q}"
         "wellKeyed m \<longrightarrow> wellKeyed m'" by blast
    from e(2) True have "set extra = {syntheticEntry q | q. q \<in> set (p # ps) \<and> \<not> truthyProperty m q}"
      by auto
    with e(1,3) show ?thesis by blast
  next
    case False
    with "2.prems" obtain c where c: "generatePangoLineageColor p None = Inr c"
      and rec: "addParents (m @ [(p, parentNode p c)]) ps = Inr m'"
      by (auto split: sum.splits)
    have se: "(p, parentNode p c) = syntheticEntry p" by (simp add: syntheticEntry_def c)
    let ?m1 = "m @ [(p, parentNode p c)]"
    from "2.IH"(2)[OF False c rec] obtain extra where
      e: "m' = ?m1 @ extra" "set extra = {syntheticEntry q | q. q \<in> set ps \<and> \<not> truthyProperty ?m1 q}"
         "wellKeyed ?m1 \<longrightarrow> wellKeyed m'" by blast
    have t: "\<And>q. truthyProperty ?m1 q \<longleftrightarrow> truthyProperty m q \<or> q = p"
      by (auto simp: truthyProperty_iff)
    have "m' = m @ ((p, parentNode p c) # extra)" using e(1) by simp
    moreover have "set ((p, parentNode p c) # extra) =
        {syntheticEntry q | q. q \<in> set (p # ps) \<and> \<not> truthyProperty m q}"
    proof -
      have "set extra = {syntheticEntry q | q. q \<in> set ps \<and> \<not> truthyProperty m q \<and> q \<noteq> p}"
        using e(2) by (simp add: t)
      then have "set ((p, parentNode p c) # extra) =
         insert (syntheticEntry p) {syntheticEntry q | q. q \<in> set ps \<and> \<not> truthyProperty m q \<and> q \<noteq> p}"
        by (simp add: se)
      also have "\<dots> = {syntheticEntry q | q. q \<in> set (p # ps) \<and> \<not> truthyProperty m q}"
        using False by auto
      finally show ?thesis .
    qed
    moreover have "wellKeyed m \<longrightarrow> wellKeyed m'"
    proof
      assume "wellKeyed m"
      with False have "wellKeyed ?m1"
        by (auto simp: wellKeyed_def truthyProperty_iff parentNode_def)
      with e(3) show "wellKeyed m'" by simp
    qed
    ultimately show ?thesis by blast
  qed
qed

lemma addLineage_result:
  assumes "addLineage nt m lin = Inr m'" "lin_value lin \<noteq> []"
  shows "\<exists>extra. m' = m @ extra \<and>
           set extra =
             (if truthyProperty m (lin_value lin) then {} else {(lin_value lin, dataNode nt lin)}) \<union>
             {syntheticEntry q | q. q \<in> set (getAllParentLineages (lin_value lin)) \<and>
                \<not> truthyProperty m q \<and> q \<noteq> lin_value lin} \<and>
           (wellKeyed m \<longrightarrow> wellKeyed m')"
proof (cases "truthyProperty m (lin_value lin)")
  case True
  with assms have "addParents m (getAllParentLineages (lin_value lin)) = Inr m'"
    by (simp add: addLineage_def)
  from addParents_result[OF this] obtain extra where
    e: "m' = m @ extra"
       "set extra = {syntheticEntry q | q. q \<in> set (getAllParentLineages (lin_value lin)) \<and> \<not> truthyProperty m q}"
       "wellKeyed m \<longrightarrow> wellKeyed m'" by blast
  from e(2) True have "set extra = {} \<union>
             {syntheticEntry q | q. q \<in> set (getAllParentLineages (lin_value lin)) \<and>
                \<not> truthyProperty m q \<and> q \<noteq> lin_value lin}" by auto
  with e(1,3) True show ?thesis by auto
next
  case False
  let ?m1 = "m @ [(lin_value lin, dataNode nt lin)]"
  from False assms have "addParents ?m1 (getAllParentLineages (lin_value lin)) = Inr m'"
    by (simp add: addLineage_def)
  from addParents_result[OF this] obtain extra where
    e: "m' = ?m1 @ extra"
       "set extra = {syntheticEntry q | q. q \<in> set (getAllParentLineages (lin_value lin)) \<and> \<not> truthyProperty ?m1 q}"
       "wellKeyed ?m1 \<longrightarrow> wellKeyed m'" by blast
  have t: "\<And>q. truthyProperty ?m1 q \<longleftrightarrow> truthyProperty m q \<or> q = lin_value lin"
    by (auto simp: truthyProperty_iff)
  have "m' = m @ ((lin_value lin, dataNode nt lin) # extra)" using e(1) by simp
  moreover have "set ((lin_value lin, dataNode nt lin) # extra) =
      {(lin_value lin, dataNode nt lin)} \<union>
             {syntheticEntry q | q. q \<in> set (getAllParentLineages (lin_value lin)) \<and>
                \<not> truthyProperty m q \<and> q \<noteq> lin_value lin}"
    using e(2) by (simp add: t)
  moreover have "wellKeyed m \<longrightarrow> wellKeyed m'"
  proof
    assume "wellKeyed m"
    with False have "wellKeyed ?m1"
      by (auto simp: wellKeyed_def truthyProperty_iff dataNode_def)
    with e(3) show "wellKeyed m'" by simp
  qed
  ultimately show ?thesis using False by auto
qed

lemma addLineage_extends:
  assumes "addLineage nt m lin = Inr m'"
  shows "\<exists>extra. m' = m @ extra \<and> fst ` set extra \<subseteq> mentioned [lin] \<and>
           (wellKeyed m \<longrightarrow> wellKeyed m')"
proof (cases "lin_value lin = []")
  case True
  with assms have "m' = m @ []" by (simp add: addLineage_def)
  then show ?thesis by (intro exI[of _ "[]"]) simp
next
  case False
  from addLineage_result[OF assms False] obtain extra where
    e: "m' = m @ extra"
       "set extra =
             (if truthyProperty m (lin_value lin) then {} else {(lin_value lin, dataNode nt lin)}) \<union>
             {syntheticEntry q | q. q \<in> set (getAllParentLineages (lin_value lin)) \<and>
                \<not> truthyProperty m q \<and> q \<noteq> lin_value lin}"
       "wellKeyed m \<longrightarrow> wellKeyed m'" by blast
  from e(2) have "fst ` set extra \<subseteq> mentioned [lin]"
    by (auto simp: mentioned_def name_syntheticEntry split: if_splits)
  with e(1,3) show ?thesis by blast
qed

lemma firstPass_extends:
  "firstPass nt m ls = Inr m' \<Longrightarrow>
     \<exists>extra. m' = m @ extra \<and> fst ` set extra \<subseteq> mentioned ls \<and> (wellKeyed m \<longrightarrow> wellKeyed m')"
proof (induction ls arbitrary: m)
  case Nil
  then have "m' = m @ []" by simp
  then show ?case by (intro exI[of _ "[]"]) simp
next
  case (Cons lin ls)
  from Cons.prems obtain m1 where a: "addLineage nt m lin = Inr m1"
    and b: "firstPass nt m1 ls = Inr m'" by (auto split: sum.splits)
  from addLineage_extends[OF a] obtain e1 where
    e1: "m1 = m @ e1" "fst ` set e1 \<subseteq> mentioned [lin]" "wellKeyed m \<longrightarrow> wellKeyed m1" by blast
  from Cons.IH[OF b] obtain e2 where
    e2: "m' = m1 @ e2" "fst ` set e2 \<subseteq> mentioned ls" "wellKeyed m1 \<longrightarrow> wellKeyed m'" by blast
  have "m' = m @ (e1 @ e2)" using e1(1) e2(1) by simp
  moreover have "fst ` set (e1 @ e2) \<subseteq> mentioned (lin # ls)"
    using e1(2) e2(2) by (auto simp: mentioned_def)
  moreover have "wellKeyed m \<longrightarrow> wellKeyed m'" using e1(3) e2(3) by blast
  ultimately show ?case by blast
qed

lemma firstPass_append:
  "firstPass nt m (xs @ ys) =
     (case firstPass nt m xs of Inl e \<Rightarrow> Inl e | Inr m1 \<Rightarrow> firstPass nt m1 ys)"
  by (induction xs arbitrary: m) (auto split: sum.splits)

lemma wellKeyed_Nil: "wellKeyed []"
  by (simp add: wellKeyed_def)

lemma wellKeyed_map_of:
  "wellKeyed m \<Longrightarrow> (k, nd) \<in> set m \<longleftrightarrow> map_of m k = Some nd"
  by (auto simp: wellKeyed_def dest: map_of_SomeD)

text \<open>The entry made for the first occurrence of a name stays in the map.\<close>

lemma firstPass_first_entry:
  assumes fp: "firstPass nt [] (pre @ e # post) = Inr m"
    and ne: "lin_value e \<noteq> []"
    and np: "lin_value e \<notin> set objectPrototypeKeys"
    and fresh: "lin_value e \<notin> mentioned pre"
  shows "wellKeyed m \<and> (lin_value e, dataNode nt e) \<in> set m"
proof -
  from fp obtain m0 m1 where m0: "firstPass nt [] pre = Inr m0"
    and m1: "addLineage nt m0 e = Inr m1" and m: "firstPass nt m1 post = Inr m"
    by (auto simp: firstPass_append split: sum.splits)
  from firstPass_extends[OF m0] wellKeyed_Nil
  have k0: "fst ` set m0 \<subseteq> mentioned pre" and w0: "wellKeyed m0" by auto
  with fresh np have nt0: "\<not> truthyProperty m0 (lin_value e)"
    by (auto simp: truthyProperty_iff)
  from addLineage_result[OF m1 ne] nt0 obtain extra where
    "m1 = m0 @ extra" "(lin_value e, dataNode nt e) \<in> set extra" "wellKeyed m0 \<longrightarrow> wellKeyed m1"
    by auto
  with w0 have in1: "(lin_value e, dataNode nt e) \<in> set m1" and w1: "wellKeyed m1" by auto
  from firstPass_extends[OF m] w1 obtain e2 where "m = m1 @ e2" "wellKeyed m" by blast
  with in1 show ?thesis by auto
qed

lemma name_placed: "name (placed m nd) = name nd"
  by (simp add: placed_def split: placement.splits)

lemma placementOf_name: "name a = name b \<Longrightarrow> placementOf m a = placementOf m b"
  by (simp add: placementOf_def)

lemma childrenOf_placed:
  "c \<in> set (childrenOf m p) \<longleftrightarrow>
     (\<exists>nd \<in> set (objectValues m). placementOf m nd = ChildOf p \<and> c = placed m nd)"
  by (auto simp: childrenOf_def placed_def)

lemma rootLineages_placed:
  "r \<in> set (rootLineages m) \<Longrightarrow> r \<in> set (objectValues m) \<and> placed m r = r"
  by (auto simp: rootLineages_def placed_def)

lemma self_in_nodesOf: "t \<in> set (nodesOf t)"
  by (cases t) simp

lemma nodesOf_trans: "t \<in> set (nodesOf u) \<Longrightarrow> set (nodesOf t) \<subseteq> set (nodesOf u)"
proof (induction u rule: nodesOf.induct)
  case (1 nd cs)
  show ?case
  proof (cases "t = LineageNode nd cs")
    case True
    then show ?thesis by simp
  next
    case False
    with "1.prems" obtain c where c: "c \<in> set cs" "t \<in> set (nodesOf c)" by auto
    from "1.IH"[OF c] c(1) show ?thesis by auto
  qed
qed

lemma child_in_nodesOf: "c \<in> set (children t) \<Longrightarrow> c \<in> set (nodesOf t)"
  by (cases t) (auto intro: self_in_nodesOf)

lemma subtrees_linkTree:
  "t \<in> set (nodesOf (linkTree m x)) \<Longrightarrow>
     t = linkTree m x \<or> (\<exists>nd \<in> set (objectValues m). t = linkTree m (placed m nd))"
proof (induction m x rule: linkTree.induct)
  case (1 m x)
  show ?case
  proof (cases "t = linkTree m x")
    case True
    then show ?thesis by simp
  next
    case False
    with "1.prems" nodesOf_linkTree[of m x] obtain c where
      c: "c \<in> set (childrenOf m (name x))" "t \<in> set (nodesOf (linkTree m c))" by auto
    from c(1) obtain nd where nd: "nd \<in> set (objectValues m)" "c = placed m nd"
      by (auto simp: childrenOf_placed)
    from "1.IH"[OF c] nd show ?thesis by auto
  qed
qed

lemma linkedNodes_subset:
  assumes "t \<in> linkedNodes m"
  shows "\<exists>nd \<in> set (objectValues m). t = linkTree m (placed m nd)"
proof -
  from assms obtain r where r: "r \<in> set (rootLineages m)" "t \<in> set (nodesOf (linkTree m r))"
    by (auto simp: linkedNodes_def)
  from subtrees_linkTree[OF r(2)] rootLineages_placed[OF r(1)] show ?thesis by metis
qed

lemma getProperty_Own: "getProperty m p = Own pn \<Longrightarrow> map_of m p = Some pn"
  by (auto simp: getProperty_def split: option.splits if_splits)

lemma placementOf_ChildOf:
  assumes "placementOf m nd = ChildOf p"
  shows "length p < length (name nd)" and "\<exists>pn. map_of m p = Some pn"
proof -
  from assms have par: "parent (parseLineageName (name nd)) = Some p"
    and own: "\<exists>pn. getProperty m p = Own pn"
    by (auto simp: placementOf_def split: option.splits if_splits property.splits)
  from parent_shorter[OF par] show "length p < length (name nd)" .
  from own obtain pn where "getProperty m p = Own pn" ..
  from getProperty_Own[OF this] show "\<exists>pn. map_of m p = Some pn" ..
qed

lemma reachable:
  assumes wk: "wellKeyed m" and nf: "\<not> pushFails m"
  shows "nd \<in> set (objectValues m) \<Longrightarrow> linkTree m (placed m nd) \<in> linkedNodes m"
proof (induction "length (name nd)" arbitrary: nd rule: less_induct)
  case less
  have nd: "nd \<in> set (objectValues m)" by fact
  show ?case
  proof (cases "placementOf m nd")
    case AtRoot
    with nd have r: "nd \<in> set (rootLineages m)" by (simp add: rootLineages_def)
    from AtRoot have "placed m nd = nd" by (simp add: placed_def)
    with r self_in_nodesOf[of "linkTree m nd"] show ?thesis
      by (auto simp: linkedNodes_def)
  next
    case PushFails
    with nd nf show ?thesis by (auto simp: pushFails_def list_ex_iff)
  next
    case (ChildOf p)
    from placementOf_ChildOf[OF ChildOf] obtain pn where
      sh: "length p < length (name nd)" and pn: "map_of m p = Some pn" by blast
    from pn have mem: "(p, pn) \<in> set m" by (rule map_of_SomeD)
    with wk have npn: "name pn = p" by (auto simp: wellKeyed_def)
    from mem have pv: "pn \<in> set (objectValues m)" by (force simp: set_objectValues)
    from sh npn have "length (name pn) < length (name nd)" by simp
    from less.hyps[OF this pv] have up: "linkTree m (placed m pn) \<in> linkedNodes m" .
    from nd ChildOf have "placed m nd \<in> set (childrenOf m p)"
      by (auto simp: childrenOf_placed)
    then have "linkTree m (placed m nd) \<in> set (children (linkTree m (placed m pn)))"
      by (simp add: children_linkTree name_placed npn)
    from child_in_nodesOf[OF this]
    have "linkTree m (placed m nd) \<in> set (nodesOf (linkTree m (placed m pn)))" .
    moreover from up obtain r where r: "r \<in> set (rootLineages m)"
      "linkTree m (placed m pn) \<in> set (nodesOf (linkTree m r))" by (auto simp: linkedNodes_def)
    ultimately have "linkTree m (placed m nd) \<in> set (nodesOf (linkTree m r))"
      using nodesOf_trans[OF r(2)] by blast
    with r(1) show ?thesis by (auto simp: linkedNodes_def)
  qed
qed

lemma linkedNodes_eq:
  assumes "wellKeyed m" "\<not> pushFails m"
  shows "linkedNodes m = (\<lambda>nd. linkTree m (placed m nd)) ` set (objectValues m)"
  using linkedNodes_subset[of _ m] reachable[OF assms] by blast

text \<open>Accumulation and sorting act node by node.\<close>

lemma nodesOf_accumulate:
  "nodesOf (fst (accumulateChildCounts t)) = map (\<lambda>s. fst (accumulateChildCounts s)) (nodesOf t)"
proof (induction t rule: accumulateChildCounts.induct)
  case (1 nd cs)
  show ?case
  proof (cases "cs = []")
    case True
    then show ?thesis by simp
  next
    case False
    have "concat (map nodesOf (map (\<lambda>c. fst (accumulateChildCounts c)) cs)) =
          map (\<lambda>s. fst (accumulateChildCounts s)) (concat (map nodesOf cs))"
      using "1.IH"[OF False] by (induction cs) auto
    with False show ?thesis by (simp add: Let_def o_def)
  qed
qed

lemma set_sortByCount: "set (sortByCount cs) = set cs"
  by (simp add: sortByCount_def)

lemma nodesOf_sortChildren:
  "set (nodesOf (sortChildren t)) = sortChildren ` set (nodesOf t)"
proof (induction t rule: sortChildren.induct)
  case (1 nd cs)
  show ?case
  proof (cases "cs = []")
    case True
    then show ?thesis by simp
  next
    case False
    have "(\<Union>c \<in> set (sortByCount cs). set (nodesOf (sortChildren c))) =
          (\<Union>c \<in> set (sortByCount cs). sortChildren ` set (nodesOf c))"
      using "1.IH"[OF False] by simp
    with False show ?thesis by (auto simp: set_sortByCount)
  qed
qed

lemma forest_nodes_char:
  assumes "organizeLineageHierarchy ls nt = Inr forest" "ls \<noteq> []"
  obtains m where "firstPass nt [] ls = Inr m" "wellKeyed m" "\<not> pushFails m"
    "set (forestNodes forest) =
       (\<lambda>nd. sortChildren (fst (accumulateChildCounts (linkTree m (placed m nd)))))
         ` set (objectValues m)"
proof -
  from assms obtain m where m: "firstPass nt [] ls = Inr m" and nf: "\<not> pushFails m"
    and forest: "forest = map sortChildren (sortByCount
         (map (\<lambda>r. fst (accumulateChildCounts r)) (map (linkTree m) (rootLineages m))))"
    by (auto simp: organizeLineageHierarchy_def Let_def split: sum.splits if_splits)
  from firstPass_extends[OF m] wellKeyed_Nil have wk: "wellKeyed m" by auto
  have "set (forestNodes forest) =
        (\<Union>r \<in> set (rootLineages m).
           set (nodesOf (sortChildren (fst (accumulateChildCounts (linkTree m r))))))"
    unfolding forest forestNodes_def by (auto simp: set_sortByCount)
  also have "\<dots> = (\<lambda>t. sortChildren (fst (accumulateChildCounts t))) ` linkedNodes m"
    unfolding linkedNodes_def nodesOf_sortChildren nodesOf_accumulate by auto
  also have "\<dots> = (\<lambda>nd. sortChildren (fst (accumulateChildCounts (linkTree m (placed m nd)))))
         ` set (objectValues m)"
    unfolding linkedNodes_eq[OF wk nf] by auto
  finally show ?thesis using that[OF m wk nf] by blast
qed

lemma info_accumulate_kept:
  "name (info (fst (accumulateChildCounts t))) = name (info t)"
  "originalCount (info (fst (accumulateChildCounts t))) = originalCount (info t)"
  "color (info (fst (accumulateChildCounts t))) = color (info t)"
  by (cases t; simp add: Let_def)+

lemma placed_kept:
  "originalCount (placed m nd) = originalCount nd"
  "color (placed m nd) = color nd"
  by (simp_all add: placed_def split: placement.splits)

lemma built_node_kept:
  "name (info (sortChildren (fst (accumulateChildCounts (linkTree m (placed m nd)))))) = name nd"
  "originalCount (info (sortChildren (fst (accumulateChildCounts (linkTree m (placed m nd)))))) =
     originalCount nd"
  by (simp_all add: info_sortChildren info_accumulate_kept info_linkTree name_placed placed_kept)

lemma mentioned_iff:
  "v \<notin> mentioned pre \<longleftrightarrow>
     (\<forall>x \<in> set pre. lin_value x \<noteq> v \<and> v \<notin> set (getAllParentLineages (lin_value x)))"
  by (auto simp: mentioned_def)

lemma first_entry_own_count:
  assumes built: "organizeLineageHierarchy (pre @ e # post) nt = Inr forest"
    and ne: "lin_value e \<noteq> []"
    and np: "lin_value e \<notin> set objectPrototypeKeys"
    and fresh: "\<forall>x \<in> set pre. lin_value x \<noteq> lin_value e \<and>
                  lin_value e \<notin> set (getAllParentLineages (lin_value x))"
  shows "(\<exists>n \<in> set (forestNodes forest). name (info n) = lin_value e) \<and>
         (\<forall>n \<in> set (forestNodes forest).
            name (info n) = lin_value e \<longrightarrow> originalCount (info n) = lin_count e)"
proof -
  have "pre @ e # post \<noteq> []" by simp
  from forest_nodes_char[OF built this] obtain m where
    m: "firstPass nt [] (pre @ e # post) = Inr m" and wk: "wellKeyed m"
    and nodes: "set (forestNodes forest) =
       (\<lambda>nd. sortChildren (fst (accumulateChildCounts (linkTree m (placed m nd)))))
         ` set (objectValues m)" by blast
  from fresh have "lin_value e \<notin> mentioned pre" by (simp add: mentioned_iff)
  from firstPass_first_entry[OF m ne np this]
  have mem: "(lin_value e, dataNode nt e) \<in> set m" by simp
  then have dv: "dataNode nt e \<in> set (objectValues m)" by (force simp: set_objectValues)
  have ex: "\<exists>n \<in> set (forestNodes forest). name (info n) = lin_value e"
  proof -
    have "name (dataNode nt e) = lin_value e" by (simp add: dataNode_def)
    with dv show ?thesis unfolding nodes by (auto simp: built_node_kept)
  qed
  have all: "\<forall>n \<in> set (forestNodes forest).
            name (info n) = lin_value e \<longrightarrow> originalCount (info n) = lin_count e"
  proof (intro ballI impI)
    fix n assume n: "n \<in> set (forestNodes forest)" and nm: "name (info n) = lin_value e"
    from n obtain nd where nd: "nd \<in> set (objectValues m)"
      and n_eq: "n = sortChildren (fst (accumulateChildCounts (linkTree m (placed m nd))))"
      unfolding nodes by blast
    from nd obtain k where k: "(k, nd) \<in> set m" by (auto simp: set_objectValues)
    with wk have "name nd = k" by (auto simp: wellKeyed_def)
    with nm n_eq have "k = lin_value e" by (simp add: built_node_kept)
    with k mem wk have "nd = dataNode nt e"
      by (simp add: wellKeyed_map_of)
    with n_eq show "originalCount (info n) = lin_count e"
      by (simp add: built_node_kept dataNode_def)
  qed
  from ex all show ?thesis ..
qed

lemma ancestorsFirst_snoc:
  "ancestorsFirst (pre @ [x]) \<longleftrightarrow>
     ancestorsFirst pre \<and> (\<forall>z \<in> set pre. lin_value x \<notin> set (getAllParentLineages (lin_value z)))"
  by (induction pre) auto

lemma getAllParentLineages_Nil: "getAllParentLineages [] = []"
  by (simp add: getAllParentLineages_def)

lemma fst_canonicalMap:
  "fst ` canonicalMap nt ls \<subseteq> dataKeys ls \<union> parentKeys ls"
  by (auto simp: canonicalMap_def dataKeys_def name_syntheticEntry)

lemma firstPass_canonical:
  "distinct (map lin_value ls) \<Longrightarrow> ancestorsFirst ls \<Longrightarrow> firstPass nt [] ls = Inr m \<Longrightarrow>
     set m = canonicalMap nt ls"
proof (induction ls arbitrary: m rule: rev_induct)
  case Nil
  then show ?case by (simp add: canonicalMap_def parentKeys_def)
next
  case (snoc x pre)
  let ?v = "lin_value x"
  from snoc.prems(3) obtain m0 where m0: "firstPass nt [] pre = Inr m0"
    and step: "addLineage nt m0 x = Inr m"
    by (auto simp: firstPass_append split: sum.splits)
  from snoc.prems(1) have d0: "distinct (map lin_value pre)" and vnew: "?v \<notin> lin_value ` set pre"
    by auto
  from snoc.prems(2) have a0: "ancestorsFirst pre"
    and notanc: "?v \<notin> parentKeys pre"
    by (auto simp: ancestorsFirst_snoc parentKeys_def)
  from snoc.IH[OF d0 a0 m0] have s0: "set m0 = canonicalMap nt pre" .
  show ?case
  proof (cases "?v = []")
    case True
    with step have "m = m0" by (simp add: addLineage_def)
    moreover from True have "canonicalMap nt (pre @ [x]) = canonicalMap nt pre"
      by (auto simp: canonicalMap_def dataKeys_def parentKeys_def getAllParentLineages_Nil)
    ultimately show ?thesis using s0 by simp
  next
    case False
    have keys0: "fst ` set m0 \<subseteq> dataKeys pre \<union> parentKeys pre"
      unfolding s0 by (rule fst_canonicalMap)
    from vnew have vd: "?v \<notin> dataKeys pre" by (auto simp: dataKeys_def)
    with notanc keys0 have vk: "?v \<notin> fst ` set m0" by blast
    then have tv: "truthyProperty m0 ?v \<longleftrightarrow> ?v \<in> set objectPrototypeKeys"
      by (simp add: truthyProperty_iff)
    have inm0: "\<And>q. q \<in> fst ` set m0 \<longleftrightarrow>
        (q \<in> dataKeys pre \<or> q \<in> parentKeys pre) \<and> q \<notin> set objectPrototypeKeys"
      unfolding s0 canonicalMap_def dataKeys_def
      by (auto simp: name_syntheticEntry image_Un image_iff)
    from addLineage_result[OF step False] obtain extra where
      e: "m = m0 @ extra"
         "set extra =
             (if truthyProperty m0 ?v then {} else {(?v, dataNode nt x)}) \<union>
             {syntheticEntry q | q. q \<in> set (getAllParentLineages ?v) \<and>
                \<not> truthyProperty m0 q \<and> q \<noteq> ?v}" by blast
    have dk: "dataKeys (pre @ [x]) = insert ?v (dataKeys pre)"
      using False by (auto simp: dataKeys_def)
    have pk: "parentKeys (pre @ [x]) = parentKeys pre \<union> set (getAllParentLineages ?v)"
      by (auto simp: parentKeys_def)
    have A: "{(lin_value y, dataNode nt y) | y.
               y \<in> set (pre @ [x]) \<and> lin_value y \<noteq> [] \<and> lin_value y \<notin> set objectPrototypeKeys} =
             {(lin_value y, dataNode nt y) | y.
               y \<in> set pre \<and> lin_value y \<noteq> [] \<and> lin_value y \<notin> set objectPrototypeKeys} \<union>
             (if truthyProperty m0 ?v then {} else {(?v, dataNode nt x)})"
      using False by (auto simp: tv)
    have B: "{p. p \<in> parentKeys (pre @ [x]) \<and> p \<notin> dataKeys (pre @ [x]) \<and>
                 p \<notin> set objectPrototypeKeys} =
             {p. p \<in> parentKeys pre \<and> p \<notin> dataKeys pre \<and> p \<notin> set objectPrototypeKeys} \<union>
             {q. q \<in> set (getAllParentLineages ?v) \<and> \<not> truthyProperty m0 q \<and> q \<noteq> ?v}"
      unfolding dk pk using notanc by (auto simp: truthyProperty_iff inm0)
    have "set m = set m0 \<union> set extra" using e(1) by simp
    also have "\<dots> = canonicalMap nt (pre @ [x])"
      unfolding s0 e(2) canonicalMap_def A B by (auto simp: image_Un)
    finally show ?thesis .
  qed
qed

lemma summary_node:
  "summary (LineageNode nd cs) = combine nd (map (\<lambda>c. snd (summary c)) cs)"
  by (simp add: summary_def combine_def Let_def foldl_add o_def)

lemma sum_list_mset_cong:
  "mset xs = mset ys \<Longrightarrow> sum_list (map f xs) = sum_list (map (f :: 'a \<Rightarrow> int) ys)"
proof -
  assume "mset xs = mset ys"
  then have "mset (map f xs) = mset (map f ys)" by (metis mset_map)
  then have "sum_mset (mset (map f xs)) = sum_mset (mset (map f ys))" by simp
  then show ?thesis by (simp only: sum_mset_sum_list)
qed

lemma combine_mset: "mset ts = mset us \<Longrightarrow> combine nd ts = combine nd us"
proof -
  assume a: "mset ts = mset us"
  then have "ts = [] \<longleftrightarrow> us = []" by (metis mset_zero_iff)
  with a show ?thesis
    unfolding combine_def
    using sum_list_mset_cong[OF a, of fst] sum_list_mset_cong[OF a, of "\<lambda>t. fst (snd t)"]
      sum_list_mset_cong[OF a, of "\<lambda>t. snd (snd t)"]
    by simp
qed

lemma wellKeyed_same_lookup:
  assumes "wellKeyed m1" "wellKeyed m2" "set m1 = set m2"
  shows "map_of m1 = map_of m2"
  using assms by (simp add: wellKeyed_def map_of_inject_set)

lemma same_placement:
  assumes "map_of m1 = map_of m2"
  shows "placementOf m1 nd = placementOf m2 nd" and "placed m1 nd = placed m2 nd"
    and "pushFails m1 \<longleftrightarrow> list_ex (\<lambda>nd. placementOf m2 nd = PushFails) (objectValues m1)"
proof -
  have g: "\<And>p. getProperty m1 p = getProperty m2 p" by (simp add: getProperty_def assms)
  show p: "\<And>nd. placementOf m1 nd = placementOf m2 nd" unfolding placementOf_def g by (rule refl)
  show "placed m1 nd = placed m2 nd" by (simp add: placed_def p)
  show "pushFails m1 \<longleftrightarrow> list_ex (\<lambda>nd. placementOf m2 nd = PushFails) (objectValues m1)"
    by (simp add: pushFails_def p)
qed

lemma mset_objectValues: "mset (objectValues obj) = mset (map snd obj)"
proof -
  have "mset (objectValues obj) =
        image_mset snd (filter_mset (\<lambda>e. isArrayIndex (fst e)) (mset obj)) +
        image_mset snd (filter_mset (\<lambda>e. \<not> isArrayIndex (fst e)) (mset obj))"
    by (simp add: objectValues_def)
  also have "\<dots> = image_mset snd (mset obj)"
    by (metis image_mset_union multiset_partition)
  finally show ?thesis by simp
qed

lemma wellKeyed_same_values:
  assumes "wellKeyed m1" "wellKeyed m2" "set m1 = set m2"
  shows "mset (objectValues m1) = mset (objectValues m2)"
proof -
  from assms(1,2) have "distinct m1" "distinct m2"
    by (auto simp: wellKeyed_def distinct_map)
  with assms(3) have "mset m1 = mset m2" by (simp add: set_eq_iff_mset_eq_distinct)
  then have "mset (map snd m1) = mset (map snd m2)" by (metis mset_map)
  then show ?thesis by (simp only: mset_objectValues)
qed

lemma same_children:
  assumes "wellKeyed m1" "wellKeyed m2" "set m1 = set m2"
  shows "mset (childrenOf m1 p) = mset (childrenOf m2 p)"
proof -
  from wellKeyed_same_lookup[OF assms] have l: "map_of m1 = map_of m2" .
  have "mset (childrenOf m1 p) =
        image_mset (\<lambda>nd. nd\<lparr>parentName := Some p\<rparr>)
          (filter_mset (\<lambda>nd. placementOf m2 nd = ChildOf p) (mset (objectValues m1)))"
    by (simp add: childrenOf_def same_placement(1)[OF l])
  also have "\<dots> = mset (childrenOf m2 p)"
    by (simp add: childrenOf_def wellKeyed_same_values[OF assms])
  finally show ?thesis .
qed

lemma same_summary:
  assumes "wellKeyed m1" "wellKeyed m2" "set m1 = set m2"
  shows "summary (linkTree m1 x) = summary (linkTree m2 x)"
  using assms
proof (induction m1 x rule: linkTree.induct)
  case (1 m1 x)
  let ?L1 = "childrenOf m1 (name x)" and ?L2 = "childrenOf m2 (name x)"
  from same_children[OF "1.prems"] have ms: "mset ?L1 = mset ?L2" .
  have each: "\<forall>c \<in> set ?L1. summary (linkTree m1 c) = summary (linkTree m2 c)"
    using "1.IH" "1.prems" by blast
  have "mset (map (\<lambda>c. snd (summary (linkTree m1 c))) ?L1) =
        image_mset (\<lambda>c. snd (summary (linkTree m1 c))) (mset ?L1)" by simp
  also have "\<dots> = image_mset (\<lambda>c. snd (summary (linkTree m2 c))) (mset ?L1)"
    using each by (intro image_mset_cong) simp
  also have "\<dots> = mset (map (\<lambda>c. snd (summary (linkTree m2 c))) ?L2)"
    using ms by simp
  finally have "combine x (map (\<lambda>c. snd (summary (linkTree m1 c))) ?L1) =
                combine x (map (\<lambda>c. snd (summary (linkTree m2 c))) ?L2)"
    by (rule combine_mset)
  moreover have "\<And>m. summary (linkTree m x) =
      combine x (map (\<lambda>c. snd (summary (linkTree m c))) (childrenOf m (name x)))"
    by (subst linkTree.simps) (simp add: summary_node o_def)
  ultimately show ?case by simp
qed

lemma same_forest_infos:
  assumes f1: "organizeLineageHierarchy xs nt = Inr f1"
    and f2: "organizeLineageHierarchy ys nt = Inr f2"
    and perm: "mset xs = mset ys"
    and dist: "distinct (map lin_value xs)"
    and ox: "ancestorsFirst xs" and oy: "ancestorsFirst ys"
  shows "info ` set (forestNodes f1) = info ` set (forestNodes f2)"
proof (cases "xs = []")
  case True
  with perm have "ys = []" by simp
  with True f1 f2 show ?thesis by (simp add: organizeLineageHierarchy_def)
next
  case False
  with perm have ny: "ys \<noteq> []" by auto
  from perm have sets: "set xs = set ys" by (metis set_mset_mset)
  from perm dist have disty: "distinct (map lin_value ys)"
    by (metis mset_map mset_eq_imp_distinct_iff)
  from forest_nodes_char[OF f1 False] obtain m1 where
    m1: "firstPass nt [] xs = Inr m1" "wellKeyed m1"
    and n1: "set (forestNodes f1) =
       (\<lambda>nd. sortChildren (fst (accumulateChildCounts (linkTree m1 (placed m1 nd)))))
         ` set (objectValues m1)" by blast
  from forest_nodes_char[OF f2 ny] obtain m2 where
    m2: "firstPass nt [] ys = Inr m2" "wellKeyed m2"
    and n2: "set (forestNodes f2) =
       (\<lambda>nd. sortChildren (fst (accumulateChildCounts (linkTree m2 (placed m2 nd)))))
         ` set (objectValues m2)" by blast
  have "set m1 = canonicalMap nt xs" by (rule firstPass_canonical[OF dist ox m1(1)])
  moreover have "set m2 = canonicalMap nt ys" by (rule firstPass_canonical[OF disty oy m2(1)])
  moreover have "canonicalMap nt xs = canonicalMap nt ys"
    by (simp add: canonicalMap_def dataKeys_def parentKeys_def sets)
  ultimately have same: "set m1 = set m2" by simp
  from wellKeyed_same_lookup[OF m1(2) m2(2) same] have l: "map_of m1 = map_of m2" .
  have vals: "set (objectValues m1) = set (objectValues m2)"
    by (simp add: set_objectValues same)
  have "\<And>nd. info (sortChildren (fst (accumulateChildCounts (linkTree m1 (placed m1 nd))))) =
             info (sortChildren (fst (accumulateChildCounts (linkTree m2 (placed m2 nd)))))"
  proof -
    fix nd
    from same_summary[OF m1(2) m2(2) same, of "placed m1 nd"]
    have "info (fst (accumulateChildCounts (linkTree m1 (placed m1 nd)))) =
          info (fst (accumulateChildCounts (linkTree m2 (placed m1 nd))))"
      by (simp add: summary_def)
    then show "info (sortChildren (fst (accumulateChildCounts (linkTree m1 (placed m1 nd))))) =
             info (sortChildren (fst (accumulateChildCounts (linkTree m2 (placed m2 nd)))))"
      by (simp add: info_sortChildren same_placement(2)[OF l])
  qed
  then show ?thesis unfolding n1 n2 vals by (simp add: image_image)
qed

subsection \<open>When the first pass raises\<close>

lemma addParents_fails:
  "isl (addParents m ps) \<longleftrightarrow>
     (\<exists>q \<in> set ps. \<not> truthyProperty m q \<and> isl (generatePangoLineageColor q None))"
proof (induction m ps rule: addParents.induct)
  case (1 m)
  then show ?case by simp
next
  case (2 m p ps)
  show ?case
  proof (cases "truthyProperty m p")
    case True
    with "2.IH"(1) show ?thesis by auto
  next
    case False
    show ?thesis
    proof (cases "generatePangoLineageColor p None")
      case (Inl e)
      with False show ?thesis by auto
    next
      case (Inr c)
      have t: "\<And>q. truthyProperty (m @ [(p, parentNode p c)]) q \<longleftrightarrow> truthyProperty m q \<or> q = p"
        by (auto simp: truthyProperty_iff)
      from "2.IH"(2)[OF False Inr] False Inr show ?thesis by (auto simp: t)
    qed
  qed
qed

lemma addLineage_fails:
  "isl (addLineage nt m x) \<longleftrightarrow>
     lin_value x \<noteq> [] \<and>
     (\<exists>q \<in> set (getAllParentLineages (lin_value x)).
        \<not> truthyProperty m q \<and> q \<noteq> lin_value x \<and> isl (generatePangoLineageColor q None))"
proof (cases "lin_value x = []")
  case True
  then show ?thesis by (simp add: addLineage_def)
next
  case False
  have t: "\<And>q. truthyProperty (m @ [(lin_value x, dataNode nt x)]) q \<longleftrightarrow>
             truthyProperty m q \<or> q = lin_value x"
    by (auto simp: truthyProperty_iff)
  from False show ?thesis
    by (auto simp: addLineage_def addParents_fails t)
qed

lemma firstPass_snoc:
  "firstPass nt m (pre @ [x]) =
     (case firstPass nt m pre of Inl e \<Rightarrow> Inl e | Inr m0 \<Rightarrow> addLineage nt m0 x)"
  by (simp add: firstPass_append split: sum.splits)

lemma firstPass_fails:
  "distinct (map lin_value ls) \<Longrightarrow> ancestorsFirst ls \<Longrightarrow>
     isl (firstPass nt [] ls) \<longleftrightarrow>
       (\<exists>p. p \<in> parentKeys ls \<and> p \<notin> dataKeys ls \<and> p \<notin> set objectPrototypeKeys \<and>
            isl (generatePangoLineageColor p None))"
proof (induction ls rule: rev_induct)
  case Nil
  then show ?case by (simp add: parentKeys_def)
next
  case (snoc x pre)
  let ?v = "lin_value x"
  let ?bad = "\<lambda>ls p. p \<in> parentKeys ls \<and> p \<notin> dataKeys ls \<and> p \<notin> set objectPrototypeKeys \<and>
            isl (generatePangoLineageColor p None)"
  from snoc.prems(1) have d0: "distinct (map lin_value pre)" and vnew: "?v \<notin> lin_value ` set pre"
    by auto
  from snoc.prems(2) have a0: "ancestorsFirst pre" and notanc: "?v \<notin> parentKeys pre"
    by (auto simp: ancestorsFirst_snoc parentKeys_def)
  from vnew have vd: "?v \<notin> dataKeys pre" by (auto simp: dataKeys_def)
  have dk: "dataKeys (pre @ [x]) = (if ?v = [] then dataKeys pre else insert ?v (dataKeys pre))"
    by (auto simp: dataKeys_def)
  have pk: "parentKeys (pre @ [x]) = parentKeys pre \<union> set (getAllParentLineages ?v)"
    by (auto simp: parentKeys_def)
  note IH = snoc.IH[OF d0 a0]
  show ?case
  proof (cases "firstPass nt [] pre")
    case (Inl e)
    with IH obtain p where p: "?bad pre p" by auto
    with notanc have "p \<noteq> ?v" by auto
    with p have "?bad (pre @ [x]) p" by (auto simp: dk pk)
    moreover from Inl have "isl (firstPass nt [] (pre @ [x]))" by (simp add: firstPass_snoc)
    ultimately show ?thesis by blast
  next
    case (Inr m0)
    with IH have nobad: "\<And>p. \<not> ?bad pre p" by auto
    from firstPass_canonical[OF d0 a0 Inr] have s0: "set m0 = canonicalMap nt pre" .
    have inm0: "\<And>q. q \<in> fst ` set m0 \<longleftrightarrow>
        (q \<in> dataKeys pre \<or> q \<in> parentKeys pre) \<and> q \<notin> set objectPrototypeKeys"
      unfolding s0 canonicalMap_def dataKeys_def
      by (auto simp: name_syntheticEntry image_Un image_iff)
    have "isl (firstPass nt [] (pre @ [x])) \<longleftrightarrow> isl (addLineage nt m0 x)"
      by (simp add: firstPass_snoc Inr)
    also have "\<dots> \<longleftrightarrow> ?v \<noteq> [] \<and>
       (\<exists>q \<in> set (getAllParentLineages ?v).
          \<not> truthyProperty m0 q \<and> q \<noteq> ?v \<and> isl (generatePangoLineageColor q None))"
      by (rule addLineage_fails)
    also have "\<dots> \<longleftrightarrow> (\<exists>p. ?bad (pre @ [x]) p)"
    proof (cases "?v = []")
      case True
      then show ?thesis using nobad by (auto simp: dk pk getAllParentLineages_Nil)
    next
      case False
      show ?thesis
      proof
        assume "?v \<noteq> [] \<and>
         (\<exists>q \<in> set (getAllParentLineages ?v).
          \<not> truthyProperty m0 q \<and> q \<noteq> ?v \<and> isl (generatePangoLineageColor q None))"
        then obtain q where q: "q \<in> set (getAllParentLineages ?v)" "\<not> truthyProperty m0 q"
          "q \<noteq> ?v" "isl (generatePangoLineageColor q None)" by blast
        from q(2) have "q \<notin> fst ` set m0" "q \<notin> set objectPrototypeKeys"
          by (auto simp: truthyProperty_iff)
        with inm0[of q] have "q \<notin> dataKeys pre" by blast
        with q \<open>q \<notin> set objectPrototypeKeys\<close> False have "?bad (pre @ [x]) q"
          by (auto simp: dk pk)
        then show "\<exists>p. ?bad (pre @ [x]) p" by blast
      next
        assume "\<exists>p. ?bad (pre @ [x]) p"
        then obtain p where p: "?bad (pre @ [x]) p" by blast
        with nobad[of p] False have pv: "p \<in> set (getAllParentLineages ?v)" "p \<notin> parentKeys pre"
          by (auto simp: dk pk)
        from p False have pd: "p \<notin> dataKeys pre" "p \<noteq> ?v" "p \<notin> set objectPrototypeKeys"
          "isl (generatePangoLineageColor p None)"
          by (auto simp: dk)
        from pv(2) pd(1) inm0[of p] have "p \<notin> fst ` set m0" by blast
        with pd(3) have "\<not> truthyProperty m0 p" by (simp add: truthyProperty_iff)
        with pv(1) pd False show "?v \<noteq> [] \<and>
         (\<exists>q \<in> set (getAllParentLineages ?v).
          \<not> truthyProperty m0 q \<and> q \<noteq> ?v \<and> isl (generatePangoLineageColor q None))"
          by blast
      qed
    qed
    finally show ?thesis .
  qed
qed

lemma same_failure:
  assumes perm: "mset xs = mset ys"
    and dist: "distinct (map lin_value xs)"
    and ox: "ancestorsFirst xs" and oy: "ancestorsFirst ys"
  shows "isl (organizeLineageHierarchy xs nt) \<longleftrightarrow> isl (organizeLineageHierarchy ys nt)"
proof -
  from perm have sets: "set xs = set ys" by (metis set_mset_mset)
  from perm have emp: "xs = [] \<longleftrightarrow> ys = []" by (metis mset_zero_iff)
  from perm dist have disty: "distinct (map lin_value ys)"
    by (metis mset_map mset_eq_imp_distinct_iff)
  have keys: "parentKeys xs = parentKeys ys" "dataKeys xs = dataKeys ys"
    by (simp_all add: parentKeys_def dataKeys_def sets)
  have ff: "isl (firstPass nt [] xs) \<longleftrightarrow> isl (firstPass nt [] ys)"
    unfolding firstPass_fails[OF dist ox] firstPass_fails[OF disty oy] keys ..
  show ?thesis
  proof (cases "xs = []")
    case True
    with emp show ?thesis by (simp add: organizeLineageHierarchy_def)
  next
    case False
    with emp have ny: "ys \<noteq> []" by simp
    show ?thesis
    proof (cases "firstPass nt [] xs")
      case (Inl e)
      with ff obtain e' where "firstPass nt [] ys = Inl e'" by (cases "firstPass nt [] ys") auto
      with Inl False ny show ?thesis by (simp add: organizeLineageHierarchy_def)
    next
      case (Inr m1)
      with ff obtain m2 where m2: "firstPass nt [] ys = Inr m2"
        by (cases "firstPass nt [] ys") auto
      from firstPass_extends[OF Inr] firstPass_extends[OF m2] wellKeyed_Nil
      have wk: "wellKeyed m1" "wellKeyed m2" by auto
      have "set m1 = canonicalMap nt xs" by (rule firstPass_canonical[OF dist ox Inr])
      moreover have "set m2 = canonicalMap nt ys" by (rule firstPass_canonical[OF disty oy m2])
      moreover have "canonicalMap nt xs = canonicalMap nt ys"
        by (simp add: canonicalMap_def dataKeys_def parentKeys_def sets)
      ultimately have same: "set m1 = set m2" by simp
      from wellKeyed_same_lookup[OF wk same] have l: "map_of m1 = map_of m2" .
      have "pushFails m1 \<longleftrightarrow> pushFails m2"
        by (simp add: pushFails_def list_ex_iff set_objectValues same same_placement(1)[OF l])
      with Inr m2 False ny show ?thesis
        by (simp add: organizeLineageHierarchy_def Let_def)
    qed
  qed
qed

subsection \<open>The builder on small inputs\<close>

lemma build_chain_B:
  "organizeLineageHierarchy
     [\<lparr>lin_value = ''B'', lin_count = 5, lin_color = c1\<rparr>,
      \<lparr>lin_value = ''B.1'', lin_count = 3, lin_color = c2\<rparr>,
      \<lparr>lin_value = ''B.1.1'', lin_count = 2, lin_color = c3\<rparr>] None =
   Inr [LineageNode
         \<lparr>name = ''B'', count = 10, originalCount = 5, sampleCount = 10, internalCount = 0,
          color = c1, isExpanded = False, level = 0, parentName = None, totalTaxa = Some 10\<rparr>
         [LineageNode
           \<lparr>name = ''B.1'', count = 5, originalCount = 3, sampleCount = 5, internalCount = 0,
            color = c2, isExpanded = False, level = 1, parentName = Some ''B'',
            totalTaxa = Some 5\<rparr>
           [LineageNode
             \<lparr>name = ''B.1.1'', count = 2, originalCount = 2, sampleCount = 2,
              internalCount = 0, color = c3, isExpanded = False, level = 2,
              parentName = Some ''B.1'', totalTaxa = None\<rparr>
             []]]]"
  by code_simp

lemma build_AY4:
  "organizeLineageHierarchy [\<lparr>lin_value = ''AY.4'', lin_count = 7, lin_color = c\<rparr>] None =
   Inr [LineageNode
         \<lparr>name = ''AY'', count = 7, originalCount = 0, sampleCount = 7, internalCount = 0,
          color = [240, 100, 60], isExpanded = False, level = 0, parentName = None,
          totalTaxa = Some 7\<rparr>
         [LineageNode
           \<lparr>name = ''AY.4'', count = 7, originalCount = 7, sampleCount = 7, internalCount = 0,
            color = c, isExpanded = False, level = 1, parentName = Some ''AY'',
            totalTaxa = None\<rparr>
           []]]"
  by code_simp

lemma build_single_B:
  "organizeLineageHierarchy [\<lparr>lin_value = ''B'', lin_count = 5, lin_color = c\<rparr>] None =
   Inr [LineageNode
         \<lparr>name = ''B'', count = 5, originalCount = 5, sampleCount = 5, internalCount = 0,
          color = c, isExpanded = False, level = 0, parentName = None, totalTaxa = None\<rparr>
         []]"
  by code_simp

lemma build_duplicate_B:
  "organizeLineageHierarchy
     [\<lparr>lin_value = ''B'', lin_count = 5, lin_color = c1\<rparr>,
      \<lparr>lin_value = ''B'', lin_count = 3, lin_color = c2\<rparr>] None =
   Inr [LineageNode
         \<lparr>name = ''B'', count = 5, originalCount = 5, sampleCount = 5, internalCount = 0,
          color = c1, isExpanded = False, level = 0, parentName = None, totalTaxa = None\<rparr>
         []]"
  by code_simp

section \<open>Properties of the hierarchy builder\<close>

text \<open>
  Claim C1. In every forest that \<open>organizeLineageHierarchy\<close> returns, every reachable
  node, synthesized ancestors included, has a total count (\<open>count\<close>) equal to its own
  count (\<open>originalCount\<close>) plus the sum of the total counts of its children.
\<close>

theorem C1_total_is_own_plus_children:
  assumes "organizeLineageHierarchy ls nt = Inr forest"
    and "n \<in> set (forestNodes forest)"
  shows "count (info n) =
           originalCount (info n) + sum_list (map (\<lambda>c. count (info c)) (children n))"
  using forest_invariants[OF assms] by (simp add: countInvariant_def)

theorem C1_total_is_own_plus_children_witness:
  "let leaf = LineageNode
                \<lparr>name = ''AY.4'', count = 7, originalCount = 7, sampleCount = 7,
                 internalCount = 0, color = [1, 2, 3], isExpanded = False, level = 1,
                 parentName = Some ''AY'', totalTaxa = None\<rparr> [];
       top = LineageNode
               \<lparr>name = ''AY'', count = 7, originalCount = 0, sampleCount = 7,
                internalCount = 0, color = [240, 100, 60], isExpanded = False, level = 0,
                parentName = None, totalTaxa = Some 7\<rparr> [leaf]
   in organizeLineageHierarchy
        [\<lparr>lin_value = ''AY.4'', lin_count = 7, lin_color = [1, 2, 3]\<rparr>] None = Inr [top] \<and>
      top \<in> set (forestNodes [top]) \<and>
      count (info top) =
        originalCount (info top) + sum_list (map (\<lambda>c. count (info c)) (children top))"
proof -
  let ?leaf = "LineageNode
             \<lparr>name = ''AY.4'', count = 7, originalCount = 7, sampleCount = 7,
              internalCount = 0, color = [1, 2, 3], isExpanded = False, level = 1,
              parentName = Some ''AY'', totalTaxa = None\<rparr> []"
  let ?top = "LineageNode
           \<lparr>name = ''AY'', count = 7, originalCount = 0, sampleCount = 7, internalCount = 0,
            color = [240, 100, 60], isExpanded = False, level = 0, parentName = None,
            totalTaxa = Some 7\<rparr> [?leaf]"
  have built:
    "organizeLineageHierarchy [\<lparr>lin_value = ''AY.4'', lin_count = 7, lin_color = [1, 2, 3]\<rparr>] None =
       Inr [?top]"
    by (rule build_AY4)
  have reach: "?top \<in> set (forestNodes [?top])"
    by (simp add: forestNodes_def)
  from C1_total_is_own_plus_children[OF built reach] built reach
  show ?thesis unfolding Let_def by blast
qed

text \<open>
  Claim C2. The observations \<open>B\<close> (5), \<open>B.1\<close> (3) and \<open>B.1.1\<close> (2), all counted as samples,
  give a forest with the single root \<open>B\<close> (own count 5, total 10), whose only child is
  \<open>B.1\<close> (own 3, total 5), whose only child is \<open>B.1.1\<close> (own 2, total 2); whatever the
  colours of the three entries are.
\<close>

theorem C2_chain_scenario:
  "organizeLineageHierarchy
     [\<lparr>lin_value = ''B'', lin_count = 5, lin_color = c1\<rparr>,
      \<lparr>lin_value = ''B.1'', lin_count = 3, lin_color = c2\<rparr>,
      \<lparr>lin_value = ''B.1.1'', lin_count = 2, lin_color = c3\<rparr>] None =
   Inr [LineageNode
         \<lparr>name = ''B'', count = 10, originalCount = 5, sampleCount = 10, internalCount = 0,
          color = c1, isExpanded = False, level = 0, parentName = None, totalTaxa = Some 10\<rparr>
         [LineageNode
           \<lparr>name = ''B.1'', count = 5, originalCount = 3, sampleCount = 5, internalCount = 0,
            color = c2, isExpanded = False, level = 1, parentName = Some ''B'',
            totalTaxa = Some 5\<rparr>
           [LineageNode
             \<lparr>name = ''B.1.1'', count = 2, originalCount = 2, sampleCount = 2,
              internalCount = 0, color = c3, isExpanded = False, level = 2,
              parentName = Some ''B.1'', totalTaxa = None\<rparr>
             []]]]"
  by (rule build_chain_B)

text \<open>
  Claim C3. The single observation \<open>AY.4\<close> (7, a sample) makes the builder synthesize the
  absent ancestor \<open>AY\<close> with own count 0 and with the colour that
  \<open>generatePangoLineageColor\<close> gives the name alone; the forest is the single root \<open>AY\<close>
  (own 0, total 7) with the single child \<open>AY.4\<close> (own 7, total 7).
\<close>

theorem C3_synthesized_ancestor_scenario:
  "organizeLineageHierarchy [\<lparr>lin_value = ''AY.4'', lin_count = 7, lin_color = c\<rparr>] None =
     Inr [LineageNode
           \<lparr>name = ''AY'', count = 7, originalCount = 0, sampleCount = 7, internalCount = 0,
            color = [240, 100, 60], isExpanded = False, level = 0, parentName = None,
            totalTaxa = Some 7\<rparr>
           [LineageNode
             \<lparr>name = ''AY.4'', count = 7, originalCount = 7, sampleCount = 7,
              internalCount = 0, color = c, isExpanded = False, level = 1,
              parentName = Some ''AY'', totalTaxa = None\<rparr>
             []]] \<and>
   generatePangoLineageColor ''AY'' None = Inr [240, 100, 60]"
proof -
  have "generatePangoLineageColor ''AY'' None = Inr [240, 100, 60]" by code_simp
  with build_AY4[of c] show ?thesis by simp
qed

text \<open>
  Claim C4, as the code has it. The first pass creates a node only when the map has no
  property of that name yet and never touches an existing node, so counts of repeated
  names are not summed. When an entry is the first one of its name, and the name is not
  an ancestor of an earlier entry (so that no node was synthesized for it) and is not a
  property name inherited from \<open>Object.prototype\<close>, the forest has a node of that name, and
  every node of that name has the count of this first entry as its own count, whatever
  entries follow.
\<close>

theorem C4_first_entry_count_kept:
  assumes "organizeLineageHierarchy (pre @ e # post) nt = Inr forest"
    and "lin_value e \<noteq> []"
    and "lin_value e \<notin> set objectPrototypeKeys"
    and "\<forall>x \<in> set pre. lin_value x \<noteq> lin_value e \<and>
           lin_value e \<notin> set (getAllParentLineages (lin_value x))"
  shows "(\<exists>n \<in> set (forestNodes forest). name (info n) = lin_value e) \<and>
         (\<forall>n \<in> set (forestNodes forest).
            name (info n) = lin_value e \<longrightarrow> originalCount (info n) = lin_count e)"
  using assms by (rule first_entry_own_count)

theorem C4_first_entry_count_kept_witness:
  "let e = \<lparr>lin_value = ''B'', lin_count = 5, lin_color = [40, 40, 200]\<rparr>;
       post = [\<lparr>lin_value = ''B'', lin_count = 3, lin_color = [40, 40, 200]\<rparr>];
       forest = [LineageNode
                  \<lparr>name = ''B'', count = 5, originalCount = 5, sampleCount = 5,
                   internalCount = 0, color = [40, 40, 200], isExpanded = False, level = 0,
                   parentName = None, totalTaxa = None\<rparr> []]
   in organizeLineageHierarchy ([] @ e # post) None = Inr forest \<and>
      lin_value e \<noteq> [] \<and>
      lin_value e \<notin> set objectPrototypeKeys \<and>
      (\<exists>n \<in> set (forestNodes forest). name (info n) = lin_value e) \<and>
      list_all (\<lambda>n. name (info n) \<noteq> lin_value e \<or> originalCount (info n) = lin_count e)
        (forestNodes forest)"
proof -
  let ?e = "\<lparr>lin_value = ''B'', lin_count = 5, lin_color = [40, 40, 200]\<rparr>"
  let ?post = "[\<lparr>lin_value = ''B'', lin_count = 3, lin_color = [40, 40, 200]\<rparr>]"
  let ?forest = "[LineageNode
                  \<lparr>name = ''B'', count = 5, originalCount = 5, sampleCount = 5,
                   internalCount = 0, color = [40, 40, 200], isExpanded = False, level = 0,
                   parentName = None, totalTaxa = None\<rparr> []]"
  have built: "organizeLineageHierarchy ([] @ ?e # ?post) None = Inr ?forest"
    using build_duplicate_B[of "[40, 40, 200]" "[40, 40, 200]"] by simp
  have ne: "lin_value ?e \<noteq> []" by simp
  have np: "lin_value ?e \<notin> set objectPrototypeKeys" by (simp add: objectPrototypeKeys_def)
  have fresh: "\<forall>x \<in> set []. lin_value x \<noteq> lin_value ?e \<and>
           lin_value ?e \<notin> set (getAllParentLineages (lin_value x))" by simp
  from C4_first_entry_count_kept[OF built ne np fresh] built ne np
  show ?thesis unfolding Let_def by (auto simp: list_all_iff)
qed

text \<open>
  Claim C4 as stated fails: from the entries \<open>B\<close> (5) and \<open>B\<close> (3) the builder makes one
  node \<open>B\<close> whose own count is 5, the count of the first entry, and not the sum 8.
\<close>

theorem C4_duplicates_not_summed:
  "organizeLineageHierarchy
     [\<lparr>lin_value = ''B'', lin_count = 5, lin_color = [40, 40, 200]\<rparr>,
      \<lparr>lin_value = ''B'', lin_count = 3, lin_color = [40, 40, 200]\<rparr>] None =
   Inr [LineageNode
         \<lparr>name = ''B'', count = 5, originalCount = 5, sampleCount = 5, internalCount = 0,
          color = [40, 40, 200], isExpanded = False, level = 0, parentName = None,
          totalTaxa = None\<rparr>
         []]"
  by code_simp

text \<open>
  Claim C5 fails on the code, by a defect of the first pass. An entry that comes after
  one of its own descendants finds its node already synthesized as a parent (own count
  0, \<open>// No direct samples\<close>) and is skipped by the guard \<open>if (!lineageMap[lineage.value])\<close>,
  although the lineage is in the data. The entries \<open>B\<close> (5) and \<open>B.1\<close> (3) have distinct
  names; in this order \<open>B\<close> gets own count 5, total 8 and the entry's colour, in the
  reverse order it gets own count 0, total 3 and the generated colour \<open>[40, 40, 200]\<close>.
\<close>

theorem C5_entry_after_descendant_is_dropped:
  "organizeLineageHierarchy
     [\<lparr>lin_value = ''B'', lin_count = 5, lin_color = [1, 2, 3]\<rparr>,
      \<lparr>lin_value = ''B.1'', lin_count = 3, lin_color = [4, 5, 6]\<rparr>] None =
   Inr [LineageNode
         \<lparr>name = ''B'', count = 8, originalCount = 5, sampleCount = 8, internalCount = 0,
          color = [1, 2, 3], isExpanded = False, level = 0, parentName = None,
          totalTaxa = Some 8\<rparr>
         [LineageNode
           \<lparr>name = ''B.1'', count = 3, originalCount = 3, sampleCount = 3, internalCount = 0,
            color = [4, 5, 6], isExpanded = False, level = 1, parentName = Some ''B'',
            totalTaxa = None\<rparr> []]] \<and>
   organizeLineageHierarchy
     [\<lparr>lin_value = ''B.1'', lin_count = 3, lin_color = [4, 5, 6]\<rparr>,
      \<lparr>lin_value = ''B'', lin_count = 5, lin_color = [1, 2, 3]\<rparr>] None =
   Inr [LineageNode
         \<lparr>name = ''B'', count = 3, originalCount = 0, sampleCount = 3, internalCount = 0,
          color = [40, 40, 200], isExpanded = False, level = 0, parentName = None,
          totalTaxa = Some 3\<rparr>
         [LineageNode
           \<lparr>name = ''B.1'', count = 3, originalCount = 3, sampleCount = 3, internalCount = 0,
            color = [4, 5, 6], isExpanded = False, level = 1, parentName = Some ''B'',
            totalTaxa = None\<rparr> []]]"
  by code_simp

text \<open>
  Claim C6, as the code has it. \<open>accumulateChildCounts\<close> assigns \<open>totalTaxa\<close> only on the
  branch for nodes with children. In a built forest a node with at least one child has
  \<open>totalTaxa = sampleCount + internalCount\<close>; a node without children has no
  \<open>totalTaxa\<close> at all (the property stays \<open>undefined\<close>).
\<close>

theorem C6_totalTaxa_only_with_children:
  assumes "organizeLineageHierarchy ls nt = Inr forest"
    and "n \<in> set (forestNodes forest)"
  shows "totalTaxa (info n) =
           (if children n = [] then None
            else Some (sampleCount (info n) + internalCount (info n)))"
  using forest_invariants[OF assms] by (simp add: taxaInvariant_def)

theorem C6_totalTaxa_only_with_children_witness:
  "let leaf = LineageNode
                \<lparr>name = ''B.1.1'', count = 2, originalCount = 2, sampleCount = 2,
                 internalCount = 0, color = [80, 40, 200], isExpanded = False, level = 2,
                 parentName = Some ''B.1'', totalTaxa = None\<rparr> [];
       mid = LineageNode
               \<lparr>name = ''B.1'', count = 5, originalCount = 3, sampleCount = 5,
                internalCount = 0, color = [60, 40, 200], isExpanded = False, level = 1,
                parentName = Some ''B'', totalTaxa = Some 5\<rparr> [leaf];
       top = LineageNode
               \<lparr>name = ''B'', count = 10, originalCount = 5, sampleCount = 10,
                internalCount = 0, color = [40, 40, 200], isExpanded = False, level = 0,
                parentName = None, totalTaxa = Some 10\<rparr> [mid]
   in organizeLineageHierarchy
        [\<lparr>lin_value = ''B'', lin_count = 5, lin_color = [40, 40, 200]\<rparr>,
         \<lparr>lin_value = ''B.1'', lin_count = 3, lin_color = [60, 40, 200]\<rparr>,
         \<lparr>lin_value = ''B.1.1'', lin_count = 2, lin_color = [80, 40, 200]\<rparr>] None = Inr [top] \<and>
      leaf \<in> set (forestNodes [top]) \<and>
      totalTaxa (info leaf) =
        (if children leaf = [] then None
         else Some (sampleCount (info leaf) + internalCount (info leaf)))"
proof -
  let ?leaf = "LineageNode
             \<lparr>name = ''B.1.1'', count = 2, originalCount = 2, sampleCount = 2,
              internalCount = 0, color = [80, 40, 200], isExpanded = False, level = 2,
              parentName = Some ''B.1'', totalTaxa = None\<rparr> []"
  let ?mid = "LineageNode
           \<lparr>name = ''B.1'', count = 5, originalCount = 3, sampleCount = 5, internalCount = 0,
            color = [60, 40, 200], isExpanded = False, level = 1, parentName = Some ''B'',
            totalTaxa = Some 5\<rparr> [?leaf]"
  let ?top = "LineageNode
         \<lparr>name = ''B'', count = 10, originalCount = 5, sampleCount = 10, internalCount = 0,
          color = [40, 40, 200], isExpanded = False, level = 0, parentName = None,
          totalTaxa = Some 10\<rparr> [?mid]"
  have built:
    "organizeLineageHierarchy
       [\<lparr>lin_value = ''B'', lin_count = 5, lin_color = [40, 40, 200]\<rparr>,
        \<lparr>lin_value = ''B.1'', lin_count = 3, lin_color = [60, 40, 200]\<rparr>,
        \<lparr>lin_value = ''B.1.1'', lin_count = 2, lin_color = [80, 40, 200]\<rparr>] None = Inr [?top]"
    by (rule build_chain_B)
  have reach: "?leaf \<in> set (forestNodes [?top])"
    by (simp add: forestNodes_def)
  from C6_totalTaxa_only_with_children[OF built reach] built reach
  show ?thesis unfolding Let_def by blast
qed

text \<open>
  Claim C6 as stated fails on a node without children: the forest built from the single
  observation \<open>B\<close> (5) is one node whose \<open>totalTaxa\<close> is undefined, although its sample
  and internal counts are 5 and 0.
\<close>

theorem C6_leaf_totalTaxa_undefined:
  "organizeLineageHierarchy [\<lparr>lin_value = ''B'', lin_count = 5, lin_color = [40, 40, 200]\<rparr>] None =
   Inr [LineageNode
         \<lparr>name = ''B'', count = 5, originalCount = 5, sampleCount = 5, internalCount = 0,
          color = [40, 40, 200], isExpanded = False, level = 0, parentName = None,
          totalTaxa = None\<rparr>
         []]"
  by (rule build_single_B)

section \<open>Properties of the colour assigner\<close>

text \<open>
  Claim C9 fails on the root-level branch with prevalence data: that branch returns
  before any check of the result. For the root \<open>BR\<close>, the only root of a hierarchy and
  so of prevalence 1, the colour is \<open>[37, 91, 55]\<close>, whose channels have a standard
  deviation below 25: \<open>isGrayish\<close> holds of it.
\<close>

theorem C9_root_with_prevalence_is_grayish:
  "generatePangoLineageColor ''BR''
     (Some \<lparr>hierarchyData =
              Some [LineageNode
                     \<lparr>name = ''BR'', count = 10, originalCount = 10, sampleCount = 10,
                      internalCount = 0, color = [120, 150, 130], isExpanded = False,
                      level = 0, parentName = None, totalTaxa = None\<rparr>
                     []],
            totalCount = None\<rparr>) = Inr [37, 91, 55] \<and>
   isGrayish [37, 91, 55]"
  by code_simp

section \<open>Properties of the name parser and the relationship oracle\<close>

text \<open>
  Claim C7. \<open>checkLineageRelationship\<close> is symmetric-inverse for every pair of names:
  the answer is \<open>self\<close> in one direction iff it is \<open>self\<close> in the other, \<open>child\<close> in
  one direction iff \<open>parent\<close> in the other, and unrelated (\<open>null\<close>) in one direction
  iff unrelated in the other.
\<close>

theorem C7_relationship_symmetry: 
  "(checkLineageRelationship a b = Some Self \<longleftrightarrow> checkLineageRelationship b a = Some Self) \<and>
   (checkLineageRelationship a b = Some Child \<longleftrightarrow> checkLineageRelationship b a = Some Parent) \<and>
   (checkLineageRelationship a b = Some Parent \<longleftrightarrow> checkLineageRelationship b a = Some Child) \<and>
   (checkLineageRelationship a b = None \<longleftrightarrow> checkLineageRelationship b a = None)"
  unfolding checkLineageRelationship_def
  using startsWith_both[of a b] startsWith_neq[of a b] startsWith_neq[of b a]
  by auto


text \<open>
  Claim C8. \<open>isPangoLineage\<close> holds exactly for the names made of one letter followed
  by zero or more groups of a dot and digits. It is false for the empty name and for
  the multi-letter and recombinant names \<open>AY.4\<close> and \<open>XBB.1.5\<close>, which the general
  parser splits into segments all the same.
\<close>

theorem C8_isPangoLineage_pattern:
  "(isPangoLineage nm \<longleftrightarrow> pangoGrammar nm) \<and>
   \<not> isPangoLineage [] \<and> \<not> isPangoLineage ''AY.4'' \<and> \<not> isPangoLineage ''XBB.1.5'' \<and>
   parts (parseLineageName ''AY.4'') = [''AY'', ''4''] \<and>
   parts (parseLineageName ''XBB.1.5'') = [''XBB'', ''1'', ''5'']"
proof -
  have "isPangoLineage nm \<longleftrightarrow> pangoGrammar nm"
    using matches_pangoPattern[of nm] pangoGrammar_nonempty[of nm]
    by (auto simp: isPangoLineage_def)
  moreover have "\<not> isPangoLineage []" by (simp add: isPangoLineage_def)
  moreover have "\<not> isPangoLineage ''AY.4''" by code_simp
  moreover have "\<not> isPangoLineage ''XBB.1.5''" by code_simp
  moreover have "parts (parseLineageName ''AY.4'') = [''AY'', ''4'']" by code_simp
  moreover have "parts (parseLineageName ''XBB.1.5'') = [''XBB'', ''1'', ''5'']" by code_simp
  ultimately show ?thesis by blast
qed

theorem C8_isPangoLineage_pattern_witness: "isPangoLineage ''B.1.1.7'' \<and> pangoGrammar ''B.1.1.7''"
proof -
  have "isPangoLineage ''B.1.1.7''" by code_simp
  with C8_isPangoLineage_pattern[of "''B.1.1.7''"] show ?thesis by simp
qed

text \<open>
  Claim C10. For every non-empty name the segments computed by \<open>parseLineageName\<close> and
  by \<open>extractLineageRoot\<close> are the name split on the dot, whichever branch of the
  grammar classification is taken, and the parent is the join of all segments but the
  last (none for a single segment).
\<close>

theorem C10_parts_are_split:
  "nm \<noteq> [] \<Longrightarrow>
     parts (parseLineageName nm) = split CHR ''.'' nm \<and>
     nameParts (extractLineageRoot nm) = split CHR ''.'' nm \<and>
     parent (parseLineageName nm) =
       (if length (split CHR ''.'' nm) > 1
        then Some (join CHR ''.'' (butlast (split CHR ''.'' nm))) else None)"
  using parseLineageName_split[of nm] extractLineageRoot_split[of nm] by simp

theorem C10_parts_are_split_witness:
  "''AY.4.2'' \<noteq> [] \<and>
     parts (parseLineageName ''AY.4.2'') = [''AY'', ''4'', ''2''] \<and>
     nameParts (extractLineageRoot ''AY.4.2'') = [''AY'', ''4'', ''2''] \<and>
     parent (parseLineageName ''AY.4.2'') = Some ''AY.4''"
  using C10_parts_are_split[of "''AY.4.2''"] by simp

end
